theory Spec2Isabelle
  imports Complex_Main "HOL-Library.Word" "HOL-Library.Multiset"
begin

chapter \<open>The L402 gateway and the Cashu proof ledger\<close>

text \<open>
  A shallow embedding of the payment core of the repository: the Cashu proof ledger
  (services/cashu.js), the macaroon helper (macaroon.js), the L402 gateway (l402-gateway.js)
  and the token counting of the provider router (services/ai-providers.js).

  Conventions of the model.
  \<^item> JavaScript numbers are integers (\<^typ>\<open>int\<close>); where the source can produce \<open>NaN\<close> the
    type \<open>jsnum\<close> adds it. Amounts, prices and token counts of the claims are integers far
    below \<open>2^53\<close>, where the arithmetic of doubles is exact.
  \<^item> Strings are lists of bytes (\<^typ>\<open>string\<close>), read as UTF-8 text; only the token
    counter, which depends on \<open>String.length\<close>, uses lists of UTF-16 code units.
  \<^item> \<open>undefined\<close> is \<open>None\<close>; a thrown exception is the left summand of a sum type.
  \<^item> Mutable objects are passed in and returned: every operation takes the ledger or the
    gateway and returns the new one next to its result.
  \<^item> What the environment answers is a parameter: the reply of the mint, the invoice of
    the Lightning node, the clock, and the random strings of \<open>crypto.randomBytes\<close>.
  \<^item> Library functions are parameters as well: \<open>Buffer\<close> and \<open>JSON\<close> (record \<open>js_lib\<close>),
    SHA-256 and HMAC-SHA256. The theorems hold for every function in their place. A
    reference implementation of base64 and JSON is given at the end of the definitions and
    proved to round-trip; the witnesses use it.
  \<^item> Event listeners are not modelled: the services emit events after their state change,
    and nothing in the repository subscribes to them.
\<close>

section \<open>JavaScript values\<close>

text \<open>
  Values as \<open>JSON.parse\<close> returns them. Numbers are integers; an object is the list of its
  members in the order of the text, and a later member shadows an earlier one of the same
  name, as it does in \<open>JSON.parse\<close>.
\<close>

datatype json =
    JNull
  | JBool bool
  | JNum int
  | JStr string
  | JArr "json list"
  | JObj "(string \<times> json) list"

type_synonym jsval = "json option"

fun truthy :: "jsval \<Rightarrow> bool" where
  "truthy None = False"
| "truthy (Some JNull) = False"
| "truthy (Some (JBool b)) = b"
| "truthy (Some (JNum n)) = (n \<noteq> 0)"
| "truthy (Some (JStr s)) = (s \<noteq> [])"
| "truthy (Some (JArr xs)) = True"
| "truthy (Some (JObj kvs)) = True"

datatype error =
    TypeError
  | SyntaxError
  | InsufficientBalance
  | InvalidTokenFormat
  | InvalidTokenStructure
  | TokenFromDifferentMint
  | FailedToReceive error
  | OutsideModel

text \<open>
  Property access \<open>v.k\<close> and \<open>v[0]\<close> on a parsed value: reading a property of \<open>null\<close> or
  \<open>undefined\<close> throws a TypeError, every other value answers \<open>undefined\<close> for a name it
  does not have. The names read by the code (\<open>token\<close>, \<open>mint\<close>, \<open>proofs\<close>, \<open>identifier\<close>,
  \<open>paymentHash\<close>) are not inherited from any prototype.
\<close>

fun get_prop :: "jsval \<Rightarrow> string \<Rightarrow> error + jsval" where
  "get_prop None k = Inl TypeError"
| "get_prop (Some JNull) k = Inl TypeError"
| "get_prop (Some (JObj kvs)) k = Inr (map_of (rev kvs) k)"
| "get_prop (Some v) k = Inr None"

fun get_first :: "jsval \<Rightarrow> error + jsval" where
  "get_first None = Inl TypeError"
| "get_first (Some JNull) = Inl TypeError"
| "get_first (Some (JArr xs)) = Inr (case xs of [] \<Rightarrow> None | x # _ \<Rightarrow> Some x)"
| "get_first (Some (JStr s)) = Inr (case s of [] \<Rightarrow> None | c # _ \<Rightarrow> Some (JStr [c]))"
| "get_first (Some (JObj kvs)) = Inr (map_of (rev kvs) ''0'')"
| "get_first (Some v) = Inr None"

text \<open>
  The library: \<open>toBase64 s\<close> is \<open>Buffer.from(s).toString('base64')\<close>, \<open>fromBase64 s\<close> is
  \<open>Buffer.from(s, 'base64').toString()\<close> for a string \<open>s\<close>, \<open>bufferFrom v\<close> the same for a
  value that is not a string (\<open>None\<close> where \<open>Buffer.from\<close> throws), \<open>stringify\<close> is
  \<open>JSON.stringify\<close> and \<open>parse\<close> is \<open>JSON.parse\<close> (\<open>None\<close> for a SyntaxError).
\<close>

record js_lib =
  toBase64 :: "string \<Rightarrow> string"
  fromBase64 :: "string \<Rightarrow> string"
  bufferFrom :: "json \<Rightarrow> string option"
  stringify :: "json \<Rightarrow> string"
  parse :: "string \<Rightarrow> json option"

subsection \<open>Numbers, plain objects as dictionaries, strings\<close>

text \<open>
  \<open>Math.max\<close> and the arithmetic operators convert \<open>undefined\<close> to \<open>NaN\<close>, and \<open>NaN\<close> is
  contagious. \<open>Math.ceil\<close> is the identity on the integers of the model.
\<close>

datatype jsnum = Num int | NaN

fun to_number :: "int option \<Rightarrow> jsnum" where
  "to_number None = NaN"
| "to_number (Some n) = Num n"

fun js_mul :: "jsnum \<Rightarrow> jsnum \<Rightarrow> jsnum" where
  "js_mul (Num a) (Num b) = Num (a * b)"
| "js_mul a b = NaN"


fun math_max :: "jsnum \<Rightarrow> jsnum \<Rightarrow> jsnum" where
  "math_max (Num a) (Num b) = Num (max a b)"
| "math_max a b = NaN"

fun math_ceil :: "jsnum \<Rightarrow> jsnum" where
  "math_ceil (Num a) = Num a"
| "math_ceil NaN = NaN"

text \<open>
  A plain object used as a dictionary (\<open>pricingTiers\<close>, \<open>revenue.byProvider\<close>, \<open>verifiers\<close>,
  \<open>providers\<close>) answers \<open>obj[k]\<close> with its own property, or else with the member of
  \<open>Object.prototype\<close> of that name, or else with \<open>undefined\<close>.
\<close>

definition object_prototype_names :: "string list" where
  "object_prototype_names =
     [''constructor'', ''__defineGetter__'', ''__defineSetter__'', ''hasOwnProperty'',
      ''__lookupGetter__'', ''__lookupSetter__'', ''isPrototypeOf'', ''propertyIsEnumerable'',
      ''toString'', ''valueOf'', ''__proto__'', ''toLocaleString'']"

datatype 'a property = Own 'a | Inherited | Absent

definition js_property :: "(string \<rightharpoonup> 'a) \<Rightarrow> string \<Rightarrow> 'a property" where
  "js_property obj k =
     (case obj k of
        Some v \<Rightarrow> Own v
      | None \<Rightarrow> if k \<in> set object_prototype_names then Inherited else Absent)"

text \<open>\<open>String.prototype.split\<close> with a separator that is not empty.\<close>

function js_split :: "string \<Rightarrow> string \<Rightarrow> string \<Rightarrow> string list" where
  "js_split sep cur [] = [rev cur]"
| "js_split sep cur (c # cs) =
     (if sep \<noteq> [] \<and> take (length sep) (c # cs) = sep
      then rev cur # js_split sep [] (drop (length sep) (c # cs))
      else js_split sep (c # cur) cs)"
  by pat_completeness auto

termination
  by (relation "measure (\<lambda>(sep, cur, s). length s)") auto

definition split :: "string \<Rightarrow> string \<Rightarrow> string list" where
  "split s sep = js_split sep [] s"

text \<open>
  Numbers in template strings and in JSON text are printed in decimal; \<open>toString('hex')\<close>
  prints two lower-case digits per byte.
\<close>

fun digit_char :: "nat \<Rightarrow> char" where
  "digit_char n = char_of (48 + n)"

function show_nat :: "nat \<Rightarrow> string" where
  "show_nat n = (if n < 10 then [digit_char n] else show_nat (n div 10) @ [digit_char (n mod 10)])"
  by pat_completeness auto

termination
  by (relation "measure id") auto

declare show_nat.simps [simp del]

definition show_int :: "int \<Rightarrow> string" where
  "show_int i = (if i < 0 then CHR ''-'' # show_nat (nat (- i)) else show_nat (nat i))"

definition hex_char :: "nat \<Rightarrow> char" where
  "hex_char n = (if n < 10 then char_of (48 + n) else char_of (87 + n))"

definition hex_val :: "char \<Rightarrow> nat option" where
  "hex_val c =
     (let n = (of_char c :: nat)
      in if 48 \<le> n \<and> n \<le> 57 then Some (n - 48)
         else if 97 \<le> n \<and> n \<le> 102 then Some (n - 87)
         else if 65 \<le> n \<and> n \<le> 70 then Some (n - 55)
         else None)"

section \<open>Proof ledger: splitting an amount into denominations\<close>

text \<open>
  JavaScript numbers are modelled as unbounded integers: every amount a claim speaks of is
  an integer far below \<open>2^53\<close>, where the arithmetic of doubles is exact.

  \<open>splitAmount\<close> (services/cashu.js) is a pair of nested \<open>while\<close> loops. The inner loop
  \<open>while (remaining >= power)\<close> has no guard of its own against \<open>power \<le> 0\<close>, so it is a
  partial function: \<open>None\<close> stands for a loop that never returns.
\<close>

partial_function (option) splitInner :: "int \<Rightarrow> int \<Rightarrow> int list \<Rightarrow> (int \<times> int list) option" where
  "splitInner remaining pw denominations =
     (if remaining \<ge> pw
      then splitInner (remaining - pw) pw (denominations @ [pw])
      else Some (remaining, denominations))"

declare splitInner.simps [code]

function splitOuter :: "int \<Rightarrow> int \<Rightarrow> int list \<Rightarrow> int list option" where
  "splitOuter remaining pw denominations =
     (if remaining > 0 \<and> pw \<ge> 1
      then (case splitInner remaining pw denominations of
              None \<Rightarrow> None
            | Some (remaining', denominations') \<Rightarrow>
                splitOuter remaining' (pw div 2) denominations')
      else Some denominations)"
  by pat_completeness auto
termination
  by (relation "measure (\<lambda>(r, p, d). nat p)") auto

declare splitOuter.simps [simp del]

definition splitAmount :: "int \<Rightarrow> int list option" where
  "splitAmount amount = splitOuter amount 8192 []"

text \<open>
  The decomposition in the words of the specification: from the power \<open>2^k\<close> downward, each
  power is taken as often as it fits into what remains.
\<close>

fun greedy :: "nat \<Rightarrow> int \<Rightarrow> int list" where
  "greedy 0 r = replicate (nat r) 1"
| "greedy (Suc k) r =
     replicate (nat (r div 2 ^ Suc k)) (2 ^ Suc k) @ greedy k (r mod 2 ^ Suc k)"

definition denomination :: "int \<Rightarrow> bool" where
  "denomination d = (d \<in> set (map (\<lambda>k. 2 ^ k) [0 ..< 14]))"

section \<open>Proof ledger\<close>

text \<open>
  A proof is the object \<open>{amount, id, secret, C}\<close>; the fields other than the amount are
  \<open>undefined\<close> when the mint's signature lacks them or when the mint returns more signatures
  than secrets were drawn. The ledger is the service object: its mint URL, its keysets, the
  stored proofs and the cached balance.
\<close>

record cashu_proof =
  amount :: int
  keyset_id :: "string option"
  secret :: "string option"
  C :: "string option"


record keyset =
  ks_id :: string
  ks_unit :: string
  ks_active :: bool

record ledger =
  mintUrl :: string
  keysets :: "keyset list"
  proofs :: "cashu_proof list"
  balance :: int









definition removeProofs :: "ledger \<Rightarrow> cashu_proof list \<Rightarrow> ledger" where
  "removeProofs l proofsToRemove =
     (let secretsToRemove = set (map secret proofsToRemove)
      in l\<lparr> proofs := filter (\<lambda>p. secret p \<notin> secretsToRemove) (proofs l) \<rparr>)"







subsection \<open>Tokens\<close>

text \<open>
  \<open>JSON.stringify\<close> leaves out a property that is \<open>undefined\<close>. \<open>proof_of_json\<close> reads a
  parsed object back as a proof; it is \<open>None\<close> for a value that is not an object with an
  integer amount and string fields, where the JavaScript would go on with untyped
  arithmetic that the model does not follow (\<open>OutsideModel\<close> in \<open>receive\<close>).
\<close>

definition opt_field :: "string \<Rightarrow> string option \<Rightarrow> (string \<times> json) list" where
  "opt_field k v = (case v of None \<Rightarrow> [] | Some s \<Rightarrow> [(k, JStr s)])"

definition proof_json :: "cashu_proof \<Rightarrow> json" where
  "proof_json p =
     JObj ([(''amount'', JNum (amount p))] @ opt_field ''id'' (keyset_id p)
           @ opt_field ''secret'' (secret p) @ opt_field ''C'' (C p))"

fun str_field :: "jsval \<Rightarrow> string option option" where
  "str_field None = Some None"
| "str_field (Some (JStr s)) = Some (Some s)"
| "str_field (Some v) = None"

definition proof_of_json :: "json \<Rightarrow> cashu_proof option" where
  "proof_of_json v =
     (case v of
        JObj kvs \<Rightarrow>
          (case (map_of (rev kvs) ''amount'', str_field (map_of (rev kvs) ''id''),
                 str_field (map_of (rev kvs) ''secret''), str_field (map_of (rev kvs) ''C'')) of
             (Some (JNum a), Some i, Some s, Some c) \<Rightarrow>
               Some \<lparr> amount = a, keyset_id = i, secret = s, C = c \<rparr>
           | _ \<Rightarrow> None)
      | _ \<Rightarrow> None)"

definition serializeToken :: "js_lib \<Rightarrow> ledger \<Rightarrow> cashu_proof list \<Rightarrow> string" where
  "serializeToken lib l prfs =
     (let token = JObj [(''token'', JArr [JObj [(''mint'', JStr (mintUrl l)),
                                               (''proofs'', JArr (map proof_json prfs))]])]
      in ''cashuA'' @ toBase64 lib (stringify lib token))"

definition deserializeToken :: "js_lib \<Rightarrow> string \<Rightarrow> error + (jsval \<times> jsval)" where
  "deserializeToken lib tokenString =
     (if take 6 tokenString \<noteq> ''cashuA'' then Inl InvalidTokenFormat
      else
        (case parse lib (fromBase64 lib (drop 6 tokenString)) of
           None \<Rightarrow> Inl SyntaxError
         | Some parsed \<Rightarrow>
            (case get_prop (Some parsed) ''token'' of
               Inl e \<Rightarrow> Inl e
             | Inr tok \<Rightarrow>
                 if \<not> truthy tok then Inl InvalidTokenStructure
                 else
                   (case get_first tok of
                      Inl e \<Rightarrow> Inl e
                    | Inr t0 \<Rightarrow>
                        if \<not> truthy t0 then Inl InvalidTokenStructure
                        else
                          (case (get_prop t0 ''mint'', get_prop t0 ''proofs'') of
                             (Inr m, Inr ps) \<Rightarrow> Inr (m, ps)
                           | _ \<Rightarrow> Inl TypeError)))))"




definition token_json :: "ledger \<Rightarrow> cashu_proof list \<Rightarrow> json" where
  "token_json l prfs =
     JObj [(''token'', JArr [JObj [(''mint'', JStr (mintUrl l)),
                                   (''proofs'', JArr (map proof_json prfs))]])]"

definition has_token0 :: "json \<Rightarrow> bool" where
  "has_token0 parsed =
     (case get_prop (Some parsed) ''token'' of
        Inr (Some tok) \<Rightarrow> (case get_first (Some tok) of Inr (Some t0) \<Rightarrow> True | _ \<Rightarrow> False)
      | _ \<Rightarrow> False)"

section \<open>Macaroon engine\<close>

text \<open>
  \<open>hmac key message\<close> is \<open>crypto.createHmac('sha256', key).update(message).digest()\<close>.
  \<open>Buffer.from(s, 'hex')\<close> decodes pairs of hex digits and stops at the first pair that is
  not one.
\<close>

definition hex_digits :: "char \<Rightarrow> string" where
  "hex_digits c = [hex_char (of_char c div 16), hex_char (of_char c mod 16)]"

definition to_hex :: "string \<Rightarrow> string" where
  "to_hex bytes = concat (map hex_digits bytes)"



type_synonym hmac_sha256 = "string \<Rightarrow> string \<Rightarrow> string"







datatype verify_result = Valid | Invalid string







section \<open>L402 gateway\<close>

text \<open>
  A pricing tier as the configuration gives it: a field that the configuration leaves out
  is \<open>undefined\<close>. \<open>default_tiers\<close> are the tiers of the gateway's constructor,
  \<open>server_tiers\<close> the ones that server.js passes. The sessions are a \<open>Map\<close> keyed by payment
  hash; only the metered sessions of \<open>createChallenge\<close> are modelled.
\<close>

record tier =
  pricePerToken :: "int option"
  tier_name :: "string option"
  minPayment :: "int option"

record session =
  provider :: string
  maxTokens :: int
  amountSats :: jsnum
  session_macaroon :: string
  session_invoice :: string
  preimage :: "string option"
  createdAt :: int
  expiresAt :: int
  paid :: bool
  used :: bool
  tokensUsed :: "int option"

record provider_revenue =
  requests :: jsnum
  tokens :: jsnum
  sats :: jsnum

record gateway =
  secretKey :: string
  pricingTiers :: "string \<rightharpoonup> tier"
  sessions :: "string \<rightharpoonup> session"
  revenue_total :: jsnum
  revenue_byProvider :: "string \<rightharpoonup> provider_revenue"

record invoice =
  r_hash :: string
  payment_request :: string
  invoice_preimage :: "string option"

definition default_tiers :: "string \<rightharpoonup> tier" where
  "default_tiers =
     [''oobabooga'' \<mapsto> \<lparr> pricePerToken = Some 1, tier_name = Some ''Oobabooga (Local)'', minPayment = Some 10 \<rparr>,
      ''grok'' \<mapsto> \<lparr> pricePerToken = Some 5, tier_name = Some ''Grok (xAI)'', minPayment = Some 50 \<rparr>,
      ''chatgpt'' \<mapsto> \<lparr> pricePerToken = Some 3, tier_name = Some ''ChatGPT (OpenAI)'', minPayment = Some 30 \<rparr>,
      ''claude'' \<mapsto> \<lparr> pricePerToken = Some 4, tier_name = Some ''Claude (Anthropic)'', minPayment = Some 40 \<rparr>]"

definition server_tiers :: "string \<rightharpoonup> tier" where
  "server_tiers =
     [''oobabooga'' \<mapsto> \<lparr> pricePerToken = Some 1, tier_name = Some ''Oobabooga (Local)'', minPayment = None \<rparr>,
      ''grok'' \<mapsto> \<lparr> pricePerToken = Some 5, tier_name = Some ''Grok (xAI)'', minPayment = None \<rparr>,
      ''chatgpt'' \<mapsto> \<lparr> pricePerToken = Some 3, tier_name = Some ''ChatGPT (OpenAI)'', minPayment = None \<rparr>,
      ''claude'' \<mapsto> \<lparr> pricePerToken = Some 4, tier_name = Some ''Claude (Anthropic)'', minPayment = None \<rparr>]"

definition new_gateway :: "string \<Rightarrow> (string \<rightharpoonup> tier) option \<Rightarrow> gateway" where
  "new_gateway key tiers =
     (let pt = (case tiers of None \<Rightarrow> default_tiers | Some t \<Rightarrow> t)
      in \<lparr> secretKey = key, pricingTiers = pt, sessions = Map.empty, revenue_total = Num 0,
           revenue_byProvider =
             (\<lambda>p. if p \<in> dom pt then Some \<lparr> requests = Num 0, tokens = Num 0, sats = Num 0 \<rparr> else None) \<rparr>)"

text \<open>
  \<open>pricingTiers[provider]\<close>: an inherited member of \<open>Object.prototype\<close> is truthy and has
  none of the fields of a tier.
\<close>

definition inherited_tier :: tier where
  "inherited_tier = \<lparr> pricePerToken = None, tier_name = None, minPayment = None \<rparr>"

definition lookup_tier :: "gateway \<Rightarrow> string \<Rightarrow> tier option" where
  "lookup_tier gw p =
     (case js_property (pricingTiers gw) p of
        Own t \<Rightarrow> Some t
      | Inherited \<Rightarrow> Some inherited_tier
      | Absent \<Rightarrow> None)"

text \<open>
  \<open>createChallenge\<close>: \<open>lnd\<close> is the invoice that the Lightning node returns for an amount,
  \<open>now\<close> the value of \<open>Date.now()\<close>, read once.
\<close>

definition signMacaroon :: "js_lib \<Rightarrow> hmac_sha256 \<Rightarrow> gateway \<Rightarrow> string \<Rightarrow> json \<Rightarrow> string" where
  "signMacaroon lib hmac gw ident data = to_hex (hmac (secretKey gw) (ident @ stringify lib data))"

definition createL402Macaroon ::
  "js_lib \<Rightarrow> hmac_sha256 \<Rightarrow> gateway \<Rightarrow> int \<Rightarrow> string \<Rightarrow> string \<Rightarrow> int \<Rightarrow> int \<Rightarrow> string" where
  "createL402Macaroon lib hmac gw now paymentHash prov maxTok expires =
     (let data = JObj [(''paymentHash'', JStr paymentHash), (''provider'', JStr prov),
                       (''maxTokens'', JNum maxTok), (''expiresAt'', JNum expires)];
          ident = toBase64 lib (stringify lib
                     (JObj [(''version'', JNum 1), (''paymentHash'', JStr paymentHash),
                            (''timestamp'', JNum now)]));
          macaroonData =
            JObj [(''identifier'', JStr ident),
                  (''location'', JStr ''lightning-hub''),
                  (''caveats'', JArr [JStr (''provider = '' @ prov),
                                      JStr (''max_tokens = '' @ show_int maxTok),
                                      JStr (''expires = '' @ show_int expires)]),
                  (''signature'', JStr (signMacaroon lib hmac gw ident data))]
      in toBase64 lib (stringify lib macaroonData))"

record challenge =
  ch_macaroon :: string
  ch_invoice :: string
  ch_paymentHash :: string
  ch_amountSats :: jsnum
  ch_expiresAt :: int

definition challenge_amount :: "tier \<Rightarrow> int \<Rightarrow> jsnum" where
  "challenge_amount t estimatedTokens =
     math_max (to_number (minPayment t))
              (math_ceil (js_mul (Num estimatedTokens) (to_number (pricePerToken t))))"

definition createChallenge ::
  "js_lib \<Rightarrow> hmac_sha256 \<Rightarrow> gateway \<Rightarrow> int \<Rightarrow> (jsnum \<Rightarrow> invoice) \<Rightarrow> string \<Rightarrow> int
     \<Rightarrow> error + (challenge \<times> gateway)" where
  "createChallenge lib hmac gw now lnd prov estimatedTokens =
     (case (case lookup_tier gw prov of Some t \<Rightarrow> Some t | None \<Rightarrow> lookup_tier gw ''oobabooga'') of
        None \<Rightarrow> Inl TypeError
      | Some t \<Rightarrow>
          (let amt = challenge_amount t estimatedTokens;
               inv = lnd amt;
               mac = createL402Macaroon lib hmac gw now (r_hash inv) prov estimatedTokens (now + 600000);
               sess = \<lparr> provider = prov, maxTokens = estimatedTokens, amountSats = amt,
                        session_macaroon = mac, session_invoice = payment_request inv,
                        preimage = invoice_preimage inv, createdAt = now, expiresAt = now + 600000,
                        paid = False, used = False, tokensUsed = None \<rparr>
           in Inr (\<lparr> ch_macaroon = mac, ch_invoice = payment_request inv, ch_paymentHash = r_hash inv,
                      ch_amountSats = amt, ch_expiresAt = now + 600000 \<rparr>,
                   gw\<lparr> sessions := (sessions gw)(r_hash inv \<mapsto> sess) \<rparr>)))"

text \<open>
  \<open>validateL402\<close>. \<open>decode_json\<close> is \<open>JSON.parse(Buffer.from(v, 'base64').toString())\<close>;
  \<open>sha256hex p\<close> is the hex digest of SHA-256 over \<open>Buffer.from(p, 'hex')\<close>. Every exception
  inside the \<open>try\<close> ends in \<open>Validation failed\<close>.
\<close>

record session_info =
  info_provider :: string
  info_maxTokens :: int
  info_amountPaid :: jsnum
  info_paymentHash :: string

datatype validation = Granted session_info | Denied string

definition decode_json :: "js_lib \<Rightarrow> jsval \<Rightarrow> error + json" where
  "decode_json lib v =
     (case (case v of
              None \<Rightarrow> None
            | Some (JStr s) \<Rightarrow> Some (fromBase64 lib s)
            | Some other \<Rightarrow> bufferFrom lib other) of
        None \<Rightarrow> Inl TypeError
      | Some text \<Rightarrow> (case parse lib text of None \<Rightarrow> Inl SyntaxError | Some j \<Rightarrow> Inr j))"

definition macaroon_paymentHash :: "js_lib \<Rightarrow> string \<Rightarrow> error + jsval" where
  "macaroon_paymentHash lib macaroonB64 =
     (case decode_json lib (Some (JStr macaroonB64)) of
        Inl e \<Rightarrow> Inl e
      | Inr mac \<Rightarrow>
         (case get_prop (Some mac) ''identifier'' of
            Inl e \<Rightarrow> Inl e
          | Inr idv \<Rightarrow>
             (case decode_json lib idv of
                Inl e \<Rightarrow> Inl e
              | Inr ident \<Rightarrow> get_prop (Some ident) ''paymentHash'')))"

definition validateL402 ::
  "js_lib \<Rightarrow> (string \<Rightarrow> string) \<Rightarrow> gateway \<Rightarrow> int \<Rightarrow> string \<Rightarrow> validation \<times> gateway" where
  "validateL402 lib sha256hex gw now authHeader =
     (let token = drop 5 authHeader;
          parts = split token '':'';
          macaroonB64 = (case parts of [] \<Rightarrow> None | m # _ \<Rightarrow> Some m);
          preimg = (case parts of _ # p # _ \<Rightarrow> Some p | _ \<Rightarrow> None)
      in case (macaroonB64, preimg) of
           (Some m, Some p) \<Rightarrow>
             if m = [] \<or> p = [] then (Denied ''Invalid L402 format'', gw)
             else
               (case macaroon_paymentHash lib m of
                  Inl e \<Rightarrow> (Denied ''Validation failed'', gw)
                | Inr ph \<Rightarrow>
                   (case (case ph of Some (JStr h) \<Rightarrow> sessions gw h | _ \<Rightarrow> None) of
                      None \<Rightarrow> (Denied ''Session not found'', gw)
                    | Some sess \<Rightarrow>
                        if now > expiresAt sess then (Denied ''Session expired'', gw)
                        else
                          (let computedHash = sha256hex p
                           in if Some p \<noteq> preimage sess \<and> Some (JStr computedHash) \<noteq> ph
                              then (Denied ''Invalid preimage'', gw)
                              else
                                (case ph of
                                   Some (JStr h) \<Rightarrow>
                                     (Granted \<lparr> info_provider = provider sess,
                                                 info_maxTokens = maxTokens sess,
                                                 info_amountPaid = amountSats sess,
                                                 info_paymentHash = h \<rparr>,
                                      gw\<lparr> sessions := (sessions gw)(h \<mapsto> sess\<lparr> paid := True \<rparr>) \<rparr>)
                                 | _ \<Rightarrow> (Denied ''Validation failed'', gw)))))
         | _ \<Rightarrow> (Denied ''Invalid L402 format'', gw))"


text \<open>
  The middleware: the parts of the request it reads, and its three outcomes (\<open>next()\<close>, the
  402 challenge, and status 500 when \<open>createChallenge\<close> throws). \<open>credential m p\<close> is the
  header \<open>L402 m:p\<close>; \<open>chat_request\<close> is a \<open>POST /v1/chat\<close> without credentials and without
  \<open>max_tokens\<close>.
\<close>

record request =
  authorization :: "string option"
  query_provider :: "string option"
  body_provider :: "string option"
  body_max_tokens :: "int option"

datatype response = Next validation | PaymentRequired challenge | ServerError

definition or_else :: "string option \<Rightarrow> string option \<Rightarrow> string option" where
  "or_else a b = (case a of Some s \<Rightarrow> if s \<noteq> [] then Some s else b | None \<Rightarrow> b)"

definition middleware ::
  "js_lib \<Rightarrow> hmac_sha256 \<Rightarrow> (string \<Rightarrow> string) \<Rightarrow> gateway \<Rightarrow> int \<Rightarrow> (jsnum \<Rightarrow> invoice)
     \<Rightarrow> request \<Rightarrow> response \<times> gateway" where
  "middleware lib hmac sha256hex gw now lnd req =
     (let validated =
            (case authorization req of
               Some authHeader \<Rightarrow>
                 if take 5 authHeader = ''L402 ''
                 then Some (validateL402 lib sha256hex gw now authHeader)
                 else None
             | None \<Rightarrow> None)
      in case validated of
           Some (Granted info, gw') \<Rightarrow> (Next (Granted info), gw')
         | other \<Rightarrow>
            (let gw' = (case other of Some (v, g) \<Rightarrow> g | None \<Rightarrow> gw);
                 prov = (case or_else (or_else (query_provider req) (body_provider req)) (Some ''oobabooga'') of
                           Some p \<Rightarrow> p | None \<Rightarrow> ''oobabooga'');
                 estimatedTokens = (case body_max_tokens req of
                                      Some n \<Rightarrow> if n \<noteq> 0 then n else 1000
                                    | None \<Rightarrow> 1000)
             in case createChallenge lib hmac gw' now lnd prov estimatedTokens of
                  Inl e \<Rightarrow> (ServerError, gw')
                | Inr (ch, gw'') \<Rightarrow> (PaymentRequired ch, gw'')))"

definition credential :: "string \<Rightarrow> string \<Rightarrow> string" where
  "credential m p = ''L402 '' @ m @ '':'' @ p"

definition chat_request :: "string \<Rightarrow> request" where
  "chat_request prov =
     \<lparr> authorization = None, query_provider = None, body_provider = Some prov,
       body_max_tokens = None \<rparr>"

section \<open>Provider router: counting tokens\<close>

text \<open>
  A text is the list of its UTF-16 code units, which \<open>text.length\<close> counts. \<open>utf8Length\<close> is
  the number of bytes of its UTF-8 encoding: a surrogate pair takes four bytes, a lone
  surrogate the three bytes of U+FFFD. No provider class overrides \<open>countTokens\<close> of
  \<open>BaseProvider\<close>.
\<close>

type_synonym jsstring = "16 word list"

definition unit_length :: "16 word \<Rightarrow> nat" where
  "unit_length u = (if u < 0x80 then 1 else if u < 0x800 then 2 else 3)"

definition high_surrogate :: "16 word \<Rightarrow> bool" where
  "high_surrogate u = (0xD800 \<le> u \<and> u \<le> 0xDBFF)"

definition low_surrogate :: "16 word \<Rightarrow> bool" where
  "low_surrogate u = (0xDC00 \<le> u \<and> u \<le> 0xDFFF)"

fun utf8Length :: "jsstring \<Rightarrow> nat" where
  "utf8Length [] = 0"
| "utf8Length [u] = unit_length u"
| "utf8Length (u # v # rest) =
     (if high_surrogate u \<and> low_surrogate v then 4 + utf8Length rest
      else unit_length u + utf8Length (v # rest))"

definition countTokens :: "jsstring \<Rightarrow> int" where
  "countTokens str = \<lceil>real (length str) / 4\<rceil>"

definition router_countTokens :: "(string \<rightharpoonup> 'p) \<Rightarrow> string \<Rightarrow> jsstring \<Rightarrow> error + int" where
  "router_countTokens providers providerName str =
     (case js_property providers providerName of
        Absent \<Rightarrow> Inr (\<lceil>real (length str) / 4\<rceil>)
      | Own p \<Rightarrow> Inr (countTokens str)
      | Inherited \<Rightarrow> Inl TypeError)"

section \<open>A reference implementation of the library\<close>

text \<open>
  Standard base64 with padding, \<open>JSON.stringify\<close> on the values of the model, and a JSON
  parser with fuel. They stand for \<open>Buffer\<close> and \<open>JSON\<close> in the witnesses; the decoder skips
  characters outside the alphabet and stops at the padding.
\<close>

definition b64char :: "nat \<Rightarrow> char" where
  "b64char i =
     (if i < 26 then char_of (65 + i)
      else if i < 52 then char_of (71 + i)
      else if i < 62 then char_of (i - 4)
      else if i = 62 then CHR ''+'' else CHR ''/'')"

fun b64enc :: "nat list \<Rightarrow> string" where
  "b64enc (a # b # c # rest) =
     [b64char (a div 4), b64char (a mod 4 * 16 + b div 16),
      b64char (b mod 16 * 4 + c div 64), b64char (c mod 64)] @ b64enc rest"
| "b64enc [a, b] =
     [b64char (a div 4), b64char (a mod 4 * 16 + b div 16), b64char (b mod 16 * 4), CHR ''='']"
| "b64enc [a] = [b64char (a div 4), b64char (a mod 4 * 16), CHR ''='', CHR ''='']"
| "b64enc [] = []"

definition std_toBase64 :: "string \<Rightarrow> string" where
  "std_toBase64 s = b64enc (map of_char s)"

definition b64val :: "char \<Rightarrow> nat option" where
  "b64val c =
     (let n = (of_char c :: nat)
      in if 65 \<le> n \<and> n \<le> 90 then Some (n - 65)
         else if 97 \<le> n \<and> n \<le> 122 then Some (n - 71)
         else if 48 \<le> n \<and> n \<le> 57 then Some (n + 4)
         else if c = CHR ''+'' \<or> c = CHR ''-'' then Some 62
         else if c = CHR ''/'' \<or> c = CHR ''_'' then Some 63
         else None)"

fun b64dec :: "nat list \<Rightarrow> nat list" where
  "b64dec (p # q # r # s # rest) =
     [p * 4 + q div 16, q mod 16 * 16 + r div 4, r mod 4 * 64 + s] @ b64dec rest"
| "b64dec [p, q, r] = [p * 4 + q div 16, q mod 16 * 16 + r div 4]"
| "b64dec [p, q] = [p * 4 + q div 16]"
| "b64dec xs = []"

definition std_fromBase64 :: "string \<Rightarrow> string" where
  "std_fromBase64 s =
     map char_of (b64dec (List.map_filter b64val (takeWhile (\<lambda>c. c \<noteq> CHR ''='') s)))"

definition escape_char :: "char \<Rightarrow> string" where
  "escape_char c =
     (if c = CHR 0x22 then [CHR 0x5C, CHR 0x22]
      else if c = CHR 0x5C then [CHR 0x5C, CHR 0x5C]
      else if c = CHR 0x08 then [CHR 0x5C, CHR ''b'']
      else if c = CHR 0x0C then [CHR 0x5C, CHR ''f'']
      else if c = CHR 0x0A then [CHR 0x5C, CHR ''n'']
      else if c = CHR 0x0D then [CHR 0x5C, CHR ''r'']
      else if c = CHR 0x09 then [CHR 0x5C, CHR ''t'']
      else if (of_char c :: nat) < 32
        then [CHR 0x5C, CHR ''u'', CHR ''0'', CHR ''0'',
              hex_char (of_char c div 16), hex_char (of_char c mod 16)]
      else [c])"

definition quote :: "string \<Rightarrow> string" where
  "quote s = [CHR 0x22] @ concat (map escape_char s) @ [CHR 0x22]"

fun join_comma :: "string list \<Rightarrow> string" where
  "join_comma [] = []"
| "join_comma [x] = x"
| "join_comma (x # y # ys) = x @ '','' @ join_comma (y # ys)"

fun std_stringify :: "json \<Rightarrow> string"
  and stringify_elems :: "json list \<Rightarrow> string list"
  and stringify_members :: "(string \<times> json) list \<Rightarrow> string list" where
  "std_stringify JNull = ''null''"
| "std_stringify (JBool b) = (if b then ''true'' else ''false'')"
| "std_stringify (JNum n) = show_int n"
| "std_stringify (JStr s) = quote s"
| "std_stringify (JArr xs) = ''['' @ join_comma (stringify_elems xs) @ '']''"
| "std_stringify (JObj kvs) = ''{'' @ join_comma (stringify_members kvs) @ ''}''"
| "stringify_elems [] = []"
| "stringify_elems (x # xs) = std_stringify x # stringify_elems xs"
| "stringify_members [] = []"
| "stringify_members ((k, v) # kvs) = (quote k @ '':'' @ std_stringify v) # stringify_members kvs"

fun skip_ws :: "string \<Rightarrow> string" where
  "skip_ws [] = []"
| "skip_ws (c # cs) =
     (if c = CHR '' '' \<or> c = CHR 0x09 \<or> c = CHR 0x0A \<or> c = CHR 0x0D then skip_ws cs else c # cs)"

definition unescape :: "char \<Rightarrow> char option" where
  "unescape e =
     (if e = CHR 0x22 \<or> e = CHR 0x5C \<or> e = CHR ''/'' then Some e
      else if e = CHR ''b'' then Some (CHR 0x08)
      else if e = CHR ''f'' then Some (CHR 0x0C)
      else if e = CHR ''n'' then Some (CHR 0x0A)
      else if e = CHR ''r'' then Some (CHR 0x0D)
      else if e = CHR ''t'' then Some (CHR 0x09)
      else None)"

fun parse_chars :: "string \<Rightarrow> string \<Rightarrow> (string \<times> string) option" where
  "parse_chars acc [] = None"
| "parse_chars acc [c] = (if c = CHR 0x22 then Some (rev acc, []) else None)"
| "parse_chars acc (c # e # cs) =
     (if c = CHR 0x22 then Some (rev acc, e # cs)
      else if c = CHR 0x5C then
        (if e = CHR ''u'' then
           (case cs of
              a # b # x # y # rest \<Rightarrow>
                (case (hex_val a, hex_val b, hex_val x, hex_val y) of
                   (Some 0, Some 0, Some h, Some l) \<Rightarrow> parse_chars (char_of (16 * h + l) # acc) rest
                 | _ \<Rightarrow> None)
            | _ \<Rightarrow> None)
         else (case unescape e of
                 Some ch \<Rightarrow> parse_chars (ch # acc) cs
               | None \<Rightarrow> None))
      else if (of_char c :: nat) < 32 then None
      else parse_chars (c # acc) (e # cs))"

definition is_digit :: "char \<Rightarrow> bool" where
  "is_digit c = (48 \<le> (of_char c :: nat) \<and> (of_char c :: nat) \<le> 57)"

definition read_nat :: "string \<Rightarrow> nat" where
  "read_nat ds = foldl (\<lambda>n d. 10 * n + (of_char d - 48)) 0 ds"

definition parse_digits :: "bool \<Rightarrow> string \<Rightarrow> (json \<times> string) option" where
  "parse_digits neg body =
     (let ds = takeWhile is_digit body;
          rest = dropWhile is_digit body
      in if ds = [] \<or> (length ds > 1 \<and> hd ds = CHR ''0'') then None
         else if rest \<noteq> [] \<and> (hd rest = CHR ''.'' \<or> hd rest = CHR ''e'' \<or> hd rest = CHR ''E'') then None
         else Some (JNum (if neg then - int (read_nat ds) else int (read_nat ds)), rest))"

definition parse_number :: "string \<Rightarrow> (json \<times> string) option" where
  "parse_number s =
     (case s of
        [] \<Rightarrow> None
      | c # cs \<Rightarrow> if c = CHR ''-'' then parse_digits True cs else parse_digits False (c # cs))"

fun parse_value :: "nat \<Rightarrow> string \<Rightarrow> (json \<times> string) option"
  and parse_elems :: "nat \<Rightarrow> string \<Rightarrow> (json list \<times> string) option"
  and parse_members :: "nat \<Rightarrow> string \<Rightarrow> ((string \<times> json) list \<times> string) option" where
  "parse_value 0 s = None"
| "parse_value (Suc f) s =
     (case skip_ws s of
        [] \<Rightarrow> None
      | c # cs \<Rightarrow>
          if c = CHR 0x22 then
            (case parse_chars [] cs of None \<Rightarrow> None | Some (str, rest) \<Rightarrow> Some (JStr str, rest))
          else if c = CHR ''['' then
            (case skip_ws cs of
               [] \<Rightarrow> None
             | d # ds \<Rightarrow>
                 if d = CHR '']'' then Some (JArr [], ds)
                 else (case parse_elems f (d # ds) of
                         None \<Rightarrow> None
                       | Some (vs, rest) \<Rightarrow> Some (JArr vs, rest)))
          else if c = CHR ''{'' then
            (case skip_ws cs of
               [] \<Rightarrow> None
             | d # ds \<Rightarrow>
                 if d = CHR ''}'' then Some (JObj [], ds)
                 else (case parse_members f (d # ds) of
                         None \<Rightarrow> None
                       | Some (kvs, rest) \<Rightarrow> Some (JObj kvs, rest)))
          else if take 4 (c # cs) = ''null'' then Some (JNull, drop 4 (c # cs))
          else if take 4 (c # cs) = ''true'' then Some (JBool True, drop 4 (c # cs))
          else if take 5 (c # cs) = ''false'' then Some (JBool False, drop 5 (c # cs))
          else parse_number (c # cs))"
| "parse_elems 0 s = None"
| "parse_elems (Suc f) s =
     (case parse_value f s of
        None \<Rightarrow> None
      | Some (v, rest) \<Rightarrow>
          (case skip_ws rest of
             [] \<Rightarrow> None
           | c # cs \<Rightarrow>
               if c = CHR '']'' then Some ([v], cs)
               else if c = CHR '','' then
                 (case parse_elems f cs of
                    None \<Rightarrow> None
                  | Some (vs, rest') \<Rightarrow> Some (v # vs, rest'))
               else None))"
| "parse_members 0 s = None"
| "parse_members (Suc f) s =
     (case skip_ws s of
        [] \<Rightarrow> None
      | q # qs \<Rightarrow>
          if q \<noteq> CHR 0x22 then None
          else
            (case parse_chars [] qs of
               None \<Rightarrow> None
             | Some (k, rest) \<Rightarrow>
                 (case skip_ws rest of
                    [] \<Rightarrow> None
                  | c # cs \<Rightarrow>
                      if c \<noteq> CHR '':'' then None
                      else
                        (case parse_value f cs of
                           None \<Rightarrow> None
                         | Some (v, rest') \<Rightarrow>
                             (case skip_ws rest' of
                                [] \<Rightarrow> None
                              | d # ds \<Rightarrow>
                                  if d = CHR ''}'' then Some ([(k, v)], ds)
                                  else if d = CHR '','' then
                                    (case parse_members f ds of
                                       None \<Rightarrow> None
                                     | Some (kvs, rest'') \<Rightarrow> Some ((k, v) # kvs, rest''))
                                  else None)))))"

definition std_parse :: "string \<Rightarrow> json option" where
  "std_parse s =
     (case parse_value (Suc (length s)) s of
        None \<Rightarrow> None
      | Some (v, rest) \<Rightarrow> if skip_ws rest = [] then Some v else None)"

fun byte_of_json :: "json \<Rightarrow> char" where
  "byte_of_json (JNum n) = char_of (nat (n mod 256))"
| "byte_of_json v = CHR 0x00"

fun std_bufferFrom :: "json \<Rightarrow> string option" where
  "std_bufferFrom (JArr xs) = Some (map byte_of_json xs)"
| "std_bufferFrom v = None"

definition std_lib :: js_lib where
  "std_lib = \<lparr> toBase64 = std_toBase64, fromBase64 = std_fromBase64, bufferFrom = std_bufferFrom,
               stringify = std_stringify, parse = std_parse \<rparr>"

section \<open>Sample data\<close>


definition p64 :: cashu_proof where
  "p64 = \<lparr> amount = 64, keyset_id = Some ''00ab'', secret = Some ''s1'', C = Some ''02c1'' \<rparr>"

definition p32 :: cashu_proof where
  "p32 = \<lparr> amount = 32, keyset_id = Some ''00ab'', secret = Some ''s2'', C = Some ''02c2'' \<rparr>"

definition p4 :: cashu_proof where
  "p4 = \<lparr> amount = 4, keyset_id = Some ''00ab'', secret = Some ''s3'', C = Some ''02c3'' \<rparr>"

definition demo_ledger :: ledger where
  "demo_ledger = \<lparr> mintUrl = ''http://localhost:3338'', keysets = [], proofs = [p64, p32, p4], balance = 100 \<rparr>"





definition demo_identifier :: string where
  "demo_identifier =
     toBase64 std_lib (stringify std_lib
       (JObj [(''version'', JNum 1), (''paymentHash'', JStr ''ab12''), (''timestamp'', JNum 1000)]))"

definition demo_macaroon :: "string \<Rightarrow> string list \<Rightarrow> string \<Rightarrow> string" where
  "demo_macaroon loc cavs sg =
     toBase64 std_lib (stringify std_lib
       (JObj [(''identifier'', JStr demo_identifier), (''location'', JStr loc),
              (''caveats'', JArr (map JStr cavs)), (''signature'', JStr sg)]))"

definition demo_session :: session where
  "demo_session =
     \<lparr> provider = ''grok'', maxTokens = 1000, amountSats = Num 5000, session_macaroon = [],
       session_invoice = ''lnbc'', preimage = Some ''cafe'', createdAt = 1000, expiresAt = 601000,
       paid = False, used = False, tokensUsed = None \<rparr>"

definition demo_gateway :: gateway where
  "demo_gateway = (new_gateway ''k'' None)\<lparr> sessions := [''ab12'' \<mapsto> demo_session] \<rparr>"

definition demo_sha :: "string \<Rightarrow> string" where
  "demo_sha p = (if p = ''beef'' then ''ab12'' else ''0000'')"

section \<open>Notions used in the proofs about the reference codec\<close>

text \<open>
  \<open>unpad\<close> reads the sextets of a base64 text up to its padding. \<open>jfuel\<close> is a recursion depth
  that suffices to parse the text printed for a value. \<open>number_follow\<close> and \<open>value_follow\<close>
  describe the characters that may follow a printed number and a printed value, and
  \<open>value_start\<close> those a printed value starts with.
\<close>

definition unpad :: "string \<Rightarrow> nat list" where
  "unpad s = List.map_filter b64val (takeWhile (\<lambda>c. c \<noteq> CHR ''='') s)"

definition number_follow :: "string \<Rightarrow> bool" where
  "number_follow rest =
     (case rest of [] \<Rightarrow> True
      | c # cs \<Rightarrow> \<not> is_digit c \<and> c \<noteq> CHR ''.'' \<and> c \<noteq> CHR ''e'' \<and> c \<noteq> CHR ''E'')"

fun jfuel :: "json \<Rightarrow> nat"
  and efuel :: "json list \<Rightarrow> nat"
  and mfuel :: "(string \<times> json) list \<Rightarrow> nat" where
  "jfuel (JArr xs) = Suc (efuel xs)"
| "jfuel (JObj kvs) = Suc (mfuel kvs)"
| "jfuel v = Suc 0"
| "efuel [] = 0"
| "efuel (x # xs) = Suc (max (jfuel x) (efuel xs))"
| "mfuel [] = 0"
| "mfuel ((k, v) # kvs) = Suc (max (jfuel v) (mfuel kvs))"

definition value_start :: "char \<Rightarrow> bool" where
  "value_start c =
     (c = CHR 0x22 \<or> c = CHR ''['' \<or> c = CHR ''{'' \<or> c = CHR ''n'' \<or> c = CHR ''t''
      \<or> c = CHR ''f'' \<or> c = CHR ''-'' \<or> is_digit c)"

definition value_follow :: "string \<Rightarrow> bool" where
  "value_follow rest =
     (case rest of [] \<Rightarrow> True | c # cs \<Rightarrow> c = CHR '','' \<or> c = CHR '']'' \<or> c = CHR ''}'')"

section \<open>The reference codec round-trips\<close>

lemma pack_div: "x < m \<Longrightarrow> (y * m + x) div m = (y::nat)"
  by simp

lemma pack_mod: "x < m \<Longrightarrow> (y * m + x) mod m = (x::nat)"
  by simp

lemma sextets_inverse:
  fixes a b c :: nat
  assumes "b < 256" "c < 256"
  shows "a div 4 * 4 + (a mod 4 * 16 + b div 16) div 16 = a"
    and "(a mod 4 * 16 + b div 16) mod 16 * 16 + (b mod 16 * 4 + c div 64) div 4 = b"
    and "(b mod 16 * 4 + c div 64) mod 4 * 64 + c mod 64 = c"
proof -
  have b16: "b div 16 < 16" using assms(1) by (simp add: less_mult_imp_div_less)
  have c64: "c div 64 < 4" using assms(2) by (simp add: less_mult_imp_div_less)
  have e0: "(a mod 4 * 16 + b div 16) div 16 = a mod 4" by (rule pack_div[OF b16])
  have e1: "(a mod 4 * 16 + b div 16) mod 16 = b div 16" by (rule pack_mod[OF b16])
  have e2: "(b mod 16 * 4 + c div 64) div 4 = b mod 16" by (rule pack_div[OF c64])
  have e3: "(b mod 16 * 4 + c div 64) mod 4 = c div 64" by (rule pack_mod[OF c64])
  show "a div 4 * 4 + (a mod 4 * 16 + b div 16) div 16 = a"
    unfolding e0 by (rule div_mult_mod_eq)
  show "(a mod 4 * 16 + b div 16) mod 16 * 16 + (b mod 16 * 4 + c div 64) div 4 = b"
    unfolding e1 e2 by (rule div_mult_mod_eq)
  show "(b mod 16 * 4 + c div 64) mod 4 * 64 + c mod 64 = c"
    unfolding e3 by (rule div_mult_mod_eq)
qed

lemma sextet_bounds:
  fixes a b c :: nat
  assumes "a < 256" "b < 256" "c < 256"
  shows "a div 4 < 64" "a mod 4 * 16 + b div 16 < 64" "b mod 16 * 4 + c div 64 < 64" "c mod 64 < 64"
    "a mod 4 * 16 < 64" "b mod 16 * 4 < 64"
proof -
  have b16: "b div 16 < 16" using assms(2) by (simp add: less_mult_imp_div_less)
  have c64: "c div 64 < 4" using assms(3) by (simp add: less_mult_imp_div_less)
  have a4: "a mod 4 < 4" and b4: "b mod 16 < 16" by simp_all
  show "a div 4 < 64" using assms(1) by (simp add: less_mult_imp_div_less)
  show "a mod 4 * 16 + b div 16 < 64" using a4 b16 by linarith
  show "b mod 16 * 4 + c div 64 < 64" using b4 c64 by linarith
  show "c mod 64 < 64" by simp
  show "a mod 4 * 16 < 64" using a4 by linarith
  show "b mod 16 * 4 < 64" using b4 by linarith
qed

lemma b64val_b64char: "i < 64 \<Longrightarrow> b64val (b64char i) = Some i"
  by (auto simp: b64val_def b64char_def Let_def)

lemma b64char_not_pad: "i < 64 \<Longrightarrow> b64char i \<noteq> CHR ''=''"
proof
  assume a: "i < 64" "b64char i = CHR ''=''"
  then have "b64val (b64char i) = b64val (CHR ''='')" by simp
  then show False using b64val_b64char[OF a(1)] by (simp add: b64val_def)
qed

lemma unpad_Cons: "i < 64 \<Longrightarrow> unpad (b64char i # s) = i # unpad s"
  by (simp add: unpad_def b64char_not_pad b64val_b64char List.map_filter_simps)

lemma unpad_pad [simp]: "unpad (CHR ''='' # s) = []"
  by (simp add: unpad_def List.map_filter_simps)

lemma unpad_Nil [simp]: "unpad [] = []"
  by (simp add: unpad_def List.map_filter_simps)

lemma b64dec_b64enc:
  "\<forall>x \<in> set bs. x < 256 \<Longrightarrow> b64dec (unpad (b64enc bs)) = bs"
proof (induction bs rule: b64enc.induct)
  case (1 a b c rest)
  then have lt: "a < 256" "b < 256" "c < 256" and rest: "\<forall>x \<in> set rest. x < 256" by simp_all
  note sb = sextet_bounds[OF lt]
  have "unpad (b64enc (a # b # c # rest)) =
      a div 4 # (a mod 4 * 16 + b div 16) # (b mod 16 * 4 + c div 64) # c mod 64 # unpad (b64enc rest)"
    by (simp add: unpad_Cons sb)
  then show ?case
    using sextets_inverse[OF lt(2,3)] "1.IH"[OF rest] by simp
next
  case (2 a b)
  then have lt: "a < 256" "b < 256" by simp_all
  note sb = sextet_bounds[OF lt lt(2)]
  have "unpad (b64enc [a, b]) = [a div 4, a mod 4 * 16 + b div 16, b mod 16 * 4]"
    by (simp add: unpad_Cons sb)
  moreover have "(b mod 16 * 4) div 4 = b mod 16" by simp
  ultimately show ?case
    using sextets_inverse(1)[OF lt(2) lt(2), of a] sextets_inverse(2)[OF lt(2), of 0 a]
    by simp
next
  case (3 a)
  then have lt: "a < 256" by simp
  note sb = sextet_bounds[OF lt lt lt]
  have "unpad (b64enc [a]) = [a div 4, a mod 4 * 16]"
    by (simp add: unpad_Cons sb)
  then show ?case by simp
next
  case 4
  then show ?case by simp
qed

lemma std_base64_roundtrip: "std_fromBase64 (std_toBase64 s) = s"
proof -
  have "\<forall>x \<in> set (map of_char s). x < (256::nat)" by simp
  then have "b64dec (unpad (b64enc (map of_char s))) = map of_char s"
    by (rule b64dec_b64enc)
  then show ?thesis
    by (simp add: std_fromBase64_def std_toBase64_def unpad_def)
qed

lemma hex_val_hex_char: "k < 16 \<Longrightarrow> hex_val (hex_char k) = Some k"
  by (auto simp: hex_val_def hex_char_def Let_def)

lemma parse_chars_plain:
  assumes "c \<noteq> CHR 0x22" "c \<noteq> CHR 0x5C" "\<not> (of_char c :: nat) < 32" "tail \<noteq> []"
  shows "parse_chars acc (c # tail) = parse_chars (c # acc) tail"
  using assms by (cases tail) simp_all

lemma parse_chars_escape:
  assumes "unescape e = Some ch" "e \<noteq> CHR ''u''"
  shows "parse_chars acc (CHR 0x5C # e # tail) = parse_chars (ch # acc) tail"
  using assms by simp

lemma parse_chars_unicode:
  assumes "n < 32"
  shows "parse_chars acc (CHR 0x5C # CHR ''u'' # CHR ''0'' # CHR ''0'' # hex_char (n div 16) # hex_char (n mod 16) # tail)
           = parse_chars (char_of n # acc) tail"
proof -
  have h: "hex_val (hex_char (n div 16)) = Some (n div 16)" "hex_val (hex_char (n mod 16)) = Some (n mod 16)"
    using assms by (simp_all add: hex_val_hex_char less_mult_imp_div_less)
  have z: "hex_val (CHR ''0'') = Some 0" by (simp add: hex_val_def)
  show ?thesis by (simp add: h z)
qed

lemma parse_chars_escape_char:
  assumes "tail \<noteq> []"
  shows "parse_chars acc (escape_char c @ tail) = parse_chars (c # acc) tail"
proof -
  consider (q) "c = CHR 0x22" | (bs) "c = CHR 0x5C" | (b) "c = CHR 0x08" | (f) "c = CHR 0x0C"
    | (n) "c = CHR 0x0A" | (r) "c = CHR 0x0D" | (t) "c = CHR 0x09"
    | (ctl) "c \<notin> {CHR 0x22, CHR 0x5C, CHR 0x08, CHR 0x0C, CHR 0x0A, CHR 0x0D, CHR 0x09}" "(of_char c :: nat) < 32"
    | (plain) "c \<notin> {CHR 0x22, CHR 0x5C, CHR 0x08, CHR 0x0C, CHR 0x0A, CHR 0x0D, CHR 0x09}" "\<not> (of_char c :: nat) < 32"
    by blast
  then show ?thesis
  proof cases
    case q
    then show ?thesis using parse_chars_escape[of "CHR 0x22" "CHR 0x22" acc tail]
      by (simp add: escape_char_def unescape_def)
  next
    case bs
    then show ?thesis using parse_chars_escape[of "CHR 0x5C" "CHR 0x5C" acc tail]
      by (simp add: escape_char_def unescape_def)
  next
    case b
    then show ?thesis using parse_chars_escape[of "CHR ''b''" "CHR 0x08" acc tail]
      by (simp add: escape_char_def unescape_def)
  next
    case f
    then show ?thesis using parse_chars_escape[of "CHR ''f''" "CHR 0x0C" acc tail]
      by (simp add: escape_char_def unescape_def)
  next
    case n
    then show ?thesis using parse_chars_escape[of "CHR ''n''" "CHR 0x0A" acc tail]
      by (simp add: escape_char_def unescape_def)
  next
    case r
    then show ?thesis using parse_chars_escape[of "CHR ''r''" "CHR 0x0D" acc tail]
      by (simp add: escape_char_def unescape_def)
  next
    case t
    then show ?thesis using parse_chars_escape[of "CHR ''t''" "CHR 0x09" acc tail]
      by (simp add: escape_char_def unescape_def)
  next
    case ctl
    have "escape_char c = [CHR 0x5C, CHR ''u'', CHR ''0'', CHR ''0'',
              hex_char (of_char c div 16), hex_char (of_char c mod 16)]"
      using ctl by (simp add: escape_char_def)
    then show ?thesis using parse_chars_unicode[OF ctl(2), of acc tail]
      by (simp del: parse_chars.simps)
  next
    case plain
    then have "escape_char c = [c]" by (simp add: escape_char_def)
    then show ?thesis using parse_chars_plain[of c tail acc] plain assms by simp
  qed
qed

lemma parse_chars_quote:
  "parse_chars acc (concat (map escape_char s) @ CHR 0x22 # rest) = Some (rev acc @ s, rest)"
proof (induction s arbitrary: acc)
  case Nil
  then show ?case by (cases rest) simp_all
next
  case (Cons c s)
  have "parse_chars acc (escape_char c @ (concat (map escape_char s) @ CHR 0x22 # rest))
      = parse_chars (c # acc) (concat (map escape_char s) @ CHR 0x22 # rest)"
    by (rule parse_chars_escape_char) simp
  then show ?case using Cons.IH[of "c # acc"] by simp
qed

lemma is_digit_digit_char: "d < 10 \<Longrightarrow> is_digit (digit_char d)"
  by (simp add: is_digit_def)

lemma digit_val: "d < 10 \<Longrightarrow> (of_char (digit_char d) :: nat) - 48 = d"
  by simp

lemma show_nat_digits: "list_all is_digit (show_nat n)"
proof (induction n rule: show_nat.induct)
  case (1 n)
  show ?case
  proof (cases "n < 10")
    case True
    then show ?thesis by (subst show_nat.simps) (simp add: is_digit_def)
  next
    case False
    have "n mod 10 < 10" by simp
    then have "is_digit (digit_char (n mod 10))" by (rule is_digit_digit_char)
    then show ?thesis using False "1.IH" by (subst show_nat.simps) simp
  qed
qed

lemma show_nat_nonempty: "show_nat n \<noteq> []"
  by (subst show_nat.simps) simp

lemma read_nat_snoc: "read_nat (ds @ [d]) = 10 * read_nat ds + (of_char d - 48)"
  by (simp add: read_nat_def)

lemma read_show_nat: "read_nat (show_nat n) = n"
proof (induction n rule: show_nat.induct)
  case (1 n)
  show ?case
  proof (cases "n < 10")
    case True
    then show ?thesis by (subst show_nat.simps) (simp add: read_nat_def)
  next
    case False
    have "read_nat (show_nat (n div 10) @ [digit_char (n mod 10)]) = 10 * (n div 10) + n mod 10"
      using "1.IH"[OF False] digit_val[of "n mod 10"] by (simp only: read_nat_snoc)
    then show ?thesis using False by (subst show_nat.simps) simp
  qed
qed

lemma show_nat_hd: "0 < n \<Longrightarrow> hd (show_nat n) \<noteq> CHR ''0''"
proof (induction n rule: show_nat.induct)
  case (1 n)
  show ?case
  proof (cases "n < 10")
    case True
    have "digit_char n \<noteq> CHR ''0''"
    proof
      assume "digit_char n = CHR ''0''"
      then have "(of_char (digit_char n) :: nat) = of_char (CHR ''0'')" by simp
      then show False using True "1.prems" by simp
    qed
    then show ?thesis using True by (subst show_nat.simps) simp
  next
    case False
    then have "0 < n div 10" by simp
    then have "hd (show_nat (n div 10)) \<noteq> CHR ''0''" using "1.IH"[OF False] by simp
    then show ?thesis using False show_nat_nonempty[of "n div 10"]
      by (subst show_nat.simps) simp
  qed
qed

lemma show_nat_leading: "length (show_nat n) > 1 \<Longrightarrow> hd (show_nat n) \<noteq> CHR ''0''"
proof (cases "n = 0")
  case True
  assume "length (show_nat n) > 1"
  then show ?thesis using True by (subst (asm) show_nat.simps) simp
next
  case False
  then show ?thesis using show_nat_hd[of n] by simp
qed

lemma takeWhile_digits:
  assumes "number_follow rest"
  shows "takeWhile is_digit (show_nat n @ rest) = show_nat n"
    and "dropWhile is_digit (show_nat n @ rest) = rest"
proof -
  have all: "\<forall>x \<in> set (show_nat n). is_digit x"
    using show_nat_digits[of n] by (simp add: list_all_iff)
  have tw: "takeWhile is_digit rest = []" and dw: "dropWhile is_digit rest = rest"
    using assms by (cases rest; simp add: number_follow_def)+
  show "takeWhile is_digit (show_nat n @ rest) = show_nat n"
    using all tw by (simp add: takeWhile_append2)
  show "dropWhile is_digit (show_nat n @ rest) = rest"
    using all dw by (simp add: dropWhile_append2)
qed

lemma parse_digits_show_nat:
  assumes "number_follow rest"
  shows "parse_digits neg (show_nat n @ rest) = Some (JNum (if neg then - int n else int n), rest)"
proof -
  have f: "rest \<noteq> [] \<Longrightarrow> hd rest \<noteq> CHR ''.'' \<and> hd rest \<noteq> CHR ''e'' \<and> hd rest \<noteq> CHR ''E''"
    using assms by (cases rest) (simp_all add: number_follow_def)
  show ?thesis
    unfolding parse_digits_def takeWhile_digits[OF assms] Let_def
    using show_nat_nonempty[of n] show_nat_leading[of n] f
    by (auto simp: read_show_nat)
qed

lemma show_nat_first: "\<exists>c cs. show_nat n = c # cs \<and> is_digit c"
proof -
  obtain c cs where "show_nat n = c # cs" using show_nat_nonempty[of n] by (cases "show_nat n") auto
  moreover have "is_digit c" using show_nat_digits[of n] calculation by simp
  ultimately show ?thesis by blast
qed

lemma minus_not_digit: "\<not> is_digit (CHR ''-'')"
  by (simp add: is_digit_def)

lemma parse_number_show_int:
  assumes "number_follow rest"
  shows "parse_number (show_int i @ rest) = Some (JNum i, rest)"
proof (cases "i < 0")
  case True
  have "parse_number (CHR ''-'' # show_nat (nat (- i)) @ rest) = Some (JNum (- int (nat (- i))), rest)"
    using parse_digits_show_nat[OF assms, of True "nat (- i)"] by (simp add: parse_number_def)
  then show ?thesis using True by (simp add: show_int_def)
next
  case False
  obtain c cs where c: "show_nat (nat i) = c # cs" "is_digit c"
    using show_nat_first by blast
  then have nm: "c \<noteq> CHR ''-''" using minus_not_digit by auto
  have "parse_number (c # (cs @ rest)) = parse_digits False (c # (cs @ rest))"
    using nm by (simp add: parse_number_def)
  also have "c # (cs @ rest) = show_nat (nat i) @ rest" using c(1) by simp
  finally have "parse_number (show_nat (nat i) @ rest) = Some (JNum (int (nat i)), rest)"
    using parse_digits_show_nat[OF assms, of False "nat i"] by simp
  then show ?thesis using False by (simp add: show_int_def)
qed

lemma value_follow_number: "value_follow rest \<Longrightarrow> number_follow rest"
  by (cases rest) (auto simp: value_follow_def number_follow_def is_digit_def)

lemma value_follow_simps [simp]:
  "value_follow (CHR '','' # s)" "value_follow (CHR '']'' # s)" "value_follow (CHR ''}'' # s)"
  by (simp_all add: value_follow_def)

lemma value_start_skip: "value_start c \<Longrightarrow> skip_ws (c # cs) = c # cs"
  by (auto simp: value_start_def is_digit_def)

lemma value_start_not_close: "value_start c \<Longrightarrow> c \<noteq> CHR '']'' \<and> c \<noteq> CHR ''}''"
  by (auto simp: value_start_def is_digit_def)

lemma stringify_start: "\<exists>c cs. std_stringify v = c # cs \<and> value_start c"
proof (cases v)
  case (JNum i)
  obtain c cs where c: "show_nat (nat (- i)) = c # cs" "is_digit c" using show_nat_first by blast
  obtain d ds where d: "show_nat (nat i) = d # ds" "is_digit d" using show_nat_first by blast
  show ?thesis using JNum c d by (auto simp: show_int_def value_start_def)
qed (auto simp: value_start_def quote_def)

lemma parse_value_null: "parse_value (Suc f) (''null'' @ rest) = Some (JNull, rest)"
  by simp

lemma parse_value_true: "parse_value (Suc f) (''true'' @ rest) = Some (JBool True, rest)"
  by simp

lemma parse_value_false: "parse_value (Suc f) (''false'' @ rest) = Some (JBool False, rest)"
  by simp

lemma parse_value_string:
  "parse_value (Suc f) (quote s @ rest) = Some (JStr s, rest)"
  using parse_chars_quote[of "[]" s rest] by (simp add: quote_def)

lemma literal_mismatch:
  "c \<noteq> CHR ''n'' \<Longrightarrow> take 4 (c # cs) \<noteq> ''null''"
  "c \<noteq> CHR ''t'' \<Longrightarrow> take 4 (c # cs) \<noteq> ''true''"
  "c \<noteq> CHR ''f'' \<Longrightarrow> take 5 (c # cs) \<noteq> ''false''"
  by (simp_all add: take_Cons')

lemma parse_value_number:
  assumes "is_digit c \<or> c = CHR ''-''"
  shows "parse_value (Suc f) (c # cs) = parse_number (c # cs)"
proof -
  have ne: "c \<noteq> CHR '' ''" "c \<noteq> CHR 0x09" "c \<noteq> CHR 0x0A" "c \<noteq> CHR 0x0D"
    "c \<noteq> CHR 0x22" "c \<noteq> CHR ''[''" "c \<noteq> CHR ''{''"
    "c \<noteq> CHR ''n''" "c \<noteq> CHR ''t''" "c \<noteq> CHR ''f''"
    using assms by (auto simp: is_digit_def)
  have sk: "skip_ws (c # cs) = c # cs" using ne by simp
  have lm: "take 4 (c # cs) \<noteq> ''null''" "take 4 (c # cs) \<noteq> ''true''"
    "take 5 (c # cs) \<noteq> ''false''"
    using literal_mismatch(1)[OF ne(8)] literal_mismatch(2)[OF ne(9)] literal_mismatch(3)[OF ne(10)]
    by blast+
  show ?thesis
    unfolding parse_value.simps sk list.case
    by (simp only: ne lm if_False)
qed

lemma parse_value_show_int:
  assumes "value_follow rest"
  shows "parse_value (Suc f) (show_int i @ rest) = Some (JNum i, rest)"
proof -
  obtain c cs where c: "show_int i = c # cs" "is_digit c \<or> c = CHR ''-''"
  proof (cases "i < 0")
    case True
    then show ?thesis using that by (simp add: show_int_def)
  next
    case False
    obtain d ds where "show_nat (nat i) = d # ds" "is_digit d" using show_nat_first by blast
    then show ?thesis using that False by (simp add: show_int_def)
  qed
  have "parse_value (Suc f) (c # (cs @ rest)) = parse_number (c # (cs @ rest))"
    by (rule parse_value_number[OF c(2)])
  also have "c # (cs @ rest) = show_int i @ rest" using c(1) by simp
  finally show ?thesis
    using parse_number_show_int[OF value_follow_number[OF assms], of i] by simp
qed

lemma parse_value_empty_array: "parse_value (Suc f) (CHR ''['' # CHR '']'' # rest) = Some (JArr [], rest)"
  by simp

lemma parse_value_empty_object: "parse_value (Suc f) (CHR ''{'' # CHR ''}'' # rest) = Some (JObj [], rest)"
  by simp

lemma parse_value_array:
  assumes "value_start d"
  shows "parse_value (Suc f) (CHR ''['' # d # ds) =
           (case parse_elems f (d # ds) of None \<Rightarrow> None | Some (vs, rest) \<Rightarrow> Some (JArr vs, rest))"
  using value_start_skip[OF assms, of ds] value_start_not_close[OF assms]
  by (simp del: skip_ws.simps parse_elems.simps add: skip_ws.simps(2)[of "CHR ''[''"])

lemma parse_value_object:
  assumes "value_start d"
  shows "parse_value (Suc f) (CHR ''{'' # d # ds) =
           (case parse_members f (d # ds) of None \<Rightarrow> None | Some (kvs, rest) \<Rightarrow> Some (JObj kvs, rest))"
  using value_start_skip[OF assms, of ds] value_start_not_close[OF assms]
  by (simp del: skip_ws.simps parse_members.simps add: skip_ws.simps(2)[of "CHR ''{''"])

lemma parse_elems_last:
  assumes "parse_value f s = Some (v, CHR '']'' # rest)"
  shows "parse_elems (Suc f) s = Some ([v], rest)"
  using assms by simp

lemma parse_elems_more:
  assumes "parse_value f s = Some (v, CHR '','' # nxt)" "parse_elems f nxt = Some (vs, rest)"
  shows "parse_elems (Suc f) s = Some (v # vs, rest)"
  using assms by simp

lemma parse_members_last:
  assumes "parse_value f s = Some (v, CHR ''}'' # rest)"
  shows "parse_members (Suc f) (quote k @ CHR '':'' # s) = Some ([(k, v)], rest)"
  using assms parse_chars_quote[of "[]" k "CHR '':'' # s"]
  by (simp add: quote_def)

lemma parse_members_more:
  assumes "parse_value f s = Some (v, CHR '','' # nxt)" "parse_members f nxt = Some (kvs, rest)"
  shows "parse_members (Suc f) (quote k @ CHR '':'' # s) = Some ((k, v) # kvs, rest)"
  using assms parse_chars_quote[of "[]" k "CHR '':'' # s"]
  by (simp add: quote_def)

lemma join_elems_start:
  "xs \<noteq> [] \<Longrightarrow> \<exists>c cs. join_comma (stringify_elems xs) = c # cs \<and> value_start c"
proof (cases xs)
  case Nil
  assume "xs \<noteq> []"
  then show ?thesis using Nil by simp
next
  case (Cons x ys)
  obtain c cs where c: "std_stringify x = c # cs" "value_start c" using stringify_start by blast
  show ?thesis using Cons c by (cases ys) auto
qed

lemma join_members_start:
  "kvs \<noteq> [] \<Longrightarrow> \<exists>cs. join_comma (stringify_members kvs) = CHR 0x22 # cs"
proof (cases kvs)
  case Nil
  assume "kvs \<noteq> []"
  then show ?thesis using Nil by simp
next
  case (Cons kv rest)
  obtain k v where "kv = (k, v)" by (cases kv)
  then show ?thesis using Cons by (cases rest) (auto simp: quote_def)
qed

lemma parse_stringify:
  "(\<forall>f rest. jfuel v \<le> f \<longrightarrow> value_follow rest \<longrightarrow>
       parse_value f (std_stringify v @ rest) = Some (v, rest))"
  "(\<forall>f rest. xs \<noteq> [] \<longrightarrow> efuel xs \<le> f \<longrightarrow>
       parse_elems f (join_comma (stringify_elems xs) @ CHR '']'' # rest) = Some (xs, rest))"
  "(\<forall>f rest. kvs \<noteq> [] \<longrightarrow> mfuel kvs \<le> f \<longrightarrow>
       parse_members f (join_comma (stringify_members kvs) @ CHR ''}'' # rest) = Some (kvs, rest))"
proof (induction v and xs and kvs rule: std_stringify_stringify_elems_stringify_members.induct)
  case 1
  show ?case
  proof (intro allI impI)
    fix f rest assume "jfuel JNull \<le> f"
    then obtain g where "f = Suc g" by (cases f) auto
    then show "parse_value f (std_stringify JNull @ rest) = Some (JNull, rest)"
      using parse_value_null[of g rest] by simp
  qed
next
  case (2 b)
  show ?case
  proof (intro allI impI)
    fix f rest assume "jfuel (JBool b) \<le> f"
    then obtain g where "f = Suc g" by (cases f) auto
    then show "parse_value f (std_stringify (JBool b) @ rest) = Some (JBool b, rest)"
      using parse_value_true[of g rest] parse_value_false[of g rest] by (cases b) simp_all
  qed
next
  case (3 n)
  show ?case
  proof (intro allI impI)
    fix f rest assume "jfuel (JNum n) \<le> f" and vf: "value_follow rest"
    then obtain g where "f = Suc g" by (cases f) auto
    then show "parse_value f (std_stringify (JNum n) @ rest) = Some (JNum n, rest)"
      using parse_value_show_int[OF vf, of g n] by simp
  qed
next
  case (4 s)
  show ?case
  proof (intro allI impI)
    fix f rest assume "jfuel (JStr s) \<le> f"
    then obtain g where "f = Suc g" by (cases f) auto
    then show "parse_value f (std_stringify (JStr s) @ rest) = Some (JStr s, rest)"
      using parse_value_string[of g s rest] by simp
  qed
next
  case (5 xs)
  show ?case
  proof (intro allI impI)
    fix f rest assume fu: "jfuel (JArr xs) \<le> f"
    then obtain g where g: "f = Suc g" "efuel xs \<le> g" by (cases f) auto
    show "parse_value f (std_stringify (JArr xs) @ rest) = Some (JArr xs, rest)"
    proof (cases "xs = []")
      case True
      then show ?thesis using g parse_value_empty_array[of g rest] by simp
    next
      case False
      obtain c cs where c: "join_comma (stringify_elems xs) = c # cs" "value_start c"
        using join_elems_start[OF False] by blast
      have pe: "parse_elems g (join_comma (stringify_elems xs) @ CHR '']'' # rest) = Some (xs, rest)"
        using 5 False g(2) by blast
      have "parse_value (Suc g) (CHR ''['' # c # (cs @ CHR '']'' # rest))
          = (case parse_elems g (c # (cs @ CHR '']'' # rest)) of None \<Rightarrow> None
             | Some (vs, r) \<Rightarrow> Some (JArr vs, r))"
        by (rule parse_value_array[OF c(2)])
      also have "c # (cs @ CHR '']'' # rest) = join_comma (stringify_elems xs) @ CHR '']'' # rest"
        using c(1) by simp
      finally show ?thesis using pe g(1) by simp
    qed
  qed
next
  case (6 kvs)
  show ?case
  proof (intro allI impI)
    fix f rest assume fu: "jfuel (JObj kvs) \<le> f"
    then obtain g where g: "f = Suc g" "mfuel kvs \<le> g" by (cases f) auto
    show "parse_value f (std_stringify (JObj kvs) @ rest) = Some (JObj kvs, rest)"
    proof (cases "kvs = []")
      case True
      then show ?thesis using g parse_value_empty_object[of g rest] by simp
    next
      case False
      obtain cs where c: "join_comma (stringify_members kvs) = CHR 0x22 # cs"
        using join_members_start[OF False] by blast
      have vs: "value_start (CHR 0x22)" by (simp add: value_start_def)
      have pe: "parse_members g (join_comma (stringify_members kvs) @ CHR ''}'' # rest) = Some (kvs, rest)"
        using 6 False g(2) by blast
      have "parse_value (Suc g) (CHR ''{'' # CHR 0x22 # (cs @ CHR ''}'' # rest))
          = (case parse_members g (CHR 0x22 # (cs @ CHR ''}'' # rest)) of None \<Rightarrow> None
             | Some (ms, r) \<Rightarrow> Some (JObj ms, r))"
        by (rule parse_value_object[OF vs])
      also have "CHR 0x22 # (cs @ CHR ''}'' # rest) = join_comma (stringify_members kvs) @ CHR ''}'' # rest"
        using c by simp
      finally show ?thesis using pe g(1) by simp
    qed
  qed
next
  case 7
  show ?case by simp
next
  case (8 x xs)
  show ?case
  proof (intro allI impI)
    fix f rest assume fu: "efuel (x # xs) \<le> f"
    then obtain g where g: "f = Suc g" "jfuel x \<le> g" "efuel xs \<le> g" by (cases f) auto
    show "parse_elems f (join_comma (stringify_elems (x # xs)) @ CHR '']'' # rest) = Some (x # xs, rest)"
    proof (cases xs)
      case Nil
      have "parse_value g (std_stringify x @ CHR '']'' # rest) = Some (x, CHR '']'' # rest)"
        using "8.IH"(1) g(2) by simp
      then show ?thesis using Nil g(1) parse_elems_last[of g _ x rest] by simp
    next
      case (Cons y ys)
      have pv: "parse_value g (std_stringify x @ CHR '','' # (join_comma (stringify_elems xs) @ CHR '']'' # rest))
          = Some (x, CHR '','' # (join_comma (stringify_elems xs) @ CHR '']'' # rest))"
        using "8.IH"(1) g(2) by simp
      have pe: "parse_elems g (join_comma (stringify_elems xs) @ CHR '']'' # rest) = Some (xs, rest)"
        using "8.IH"(2) g(3) Cons by blast
      have "join_comma (stringify_elems (x # xs)) @ CHR '']'' # rest
          = std_stringify x @ CHR '','' # (join_comma (stringify_elems xs) @ CHR '']'' # rest)"
        using Cons by simp
      then show ?thesis using parse_elems_more[OF pv pe] g(1) by simp
    qed
  qed
next
  case 9
  show ?case by simp
next
  case (10 k v kvs)
  show ?case
  proof (intro allI impI)
    fix f rest assume fu: "mfuel ((k, v) # kvs) \<le> f"
    then obtain g where g: "f = Suc g" "jfuel v \<le> g" "mfuel kvs \<le> g" by (cases f) auto
    show "parse_members f (join_comma (stringify_members ((k, v) # kvs)) @ CHR ''}'' # rest)
            = Some ((k, v) # kvs, rest)"
    proof (cases kvs)
      case Nil
      have "parse_value g (std_stringify v @ CHR ''}'' # rest) = Some (v, CHR ''}'' # rest)"
        using "10.IH"(1) g(2) by simp
      then show ?thesis using Nil g(1) parse_members_last[of g _ v rest k] by simp
    next
      case (Cons kv' kvs')
      have pv: "parse_value g (std_stringify v @ CHR '','' # (join_comma (stringify_members kvs) @ CHR ''}'' # rest))
          = Some (v, CHR '','' # (join_comma (stringify_members kvs) @ CHR ''}'' # rest))"
        using "10.IH"(1) g(2) by simp
      have pe: "parse_members g (join_comma (stringify_members kvs) @ CHR ''}'' # rest) = Some (kvs, rest)"
        using "10.IH"(2) g(3) Cons by blast
      have "join_comma (stringify_members ((k, v) # kvs)) @ CHR ''}'' # rest
          = quote k @ CHR '':'' # (std_stringify v @ CHR '','' # (join_comma (stringify_members kvs) @ CHR ''}'' # rest))"
        using Cons by (cases kv') simp
      then show ?thesis using parse_members_more[OF pv pe, of k] g(1) by simp
    qed
  qed
qed

lemma show_int_nonempty: "0 < length (show_int i)"
  using show_nat_nonempty by (simp add: show_int_def)

lemma fuel_bound:
  "jfuel v \<le> length (std_stringify v)"
  "efuel xs \<le> Suc (length (join_comma (stringify_elems xs)))"
  "mfuel kvs \<le> Suc (length (join_comma (stringify_members kvs)))"
proof (induction v and xs and kvs rule: std_stringify_stringify_elems_stringify_members.induct)
  case (3 n)
  have "Suc 0 \<le> length (show_int n)" using show_int_nonempty[of n] by linarith
  then show ?case by simp
next
  case (4 s)
  then show ?case by (simp add: quote_def)
next
  case (8 x xs)
  then show ?case by (cases xs) auto
next
  case (10 k v kvs)
  show ?case
  proof (cases kvs)
    case Nil
    then show ?thesis using "10.IH"(1) by simp
  next
    case (Cons kv' kvs')
    then show ?thesis using "10.IH" by (cases kv') auto
  qed
qed simp_all

lemma std_parse_stringify: "std_parse (std_stringify v) = Some v"
proof -
  have "jfuel v \<le> Suc (length (std_stringify v))"
    using fuel_bound(1)[of v] by simp
  moreover have "value_follow []" by (simp add: value_follow_def)
  ultimately have "parse_value (Suc (length (std_stringify v))) (std_stringify v @ []) = Some (v, [])"
    using parse_stringify(1)[of v] by blast
  then show ?thesis by (simp add: std_parse_def)
qed

section \<open>Splitting an amount\<close>

subsection \<open>The loops compute the greedy decomposition\<close>

lemma greedy_zero [simp]: "greedy k 0 = []"
  by (induction k) simp_all

lemma div_minus_self:
  fixes pw :: int
  assumes "0 < pw" "pw \<le> r"
  shows "Suc (nat ((r - pw) div pw)) = nat (r div pw)"
proof -
  have "(r - pw) div pw = r div pw - 1"
    using assms(1) div_add_self2[of pw "r - pw"] by simp
  moreover have "1 \<le> r div pw"
    using assms pos_imp_zdiv_pos_iff[of pw r] by linarith
  ultimately show ?thesis by simp
qed

lemma splitInner_eq:
  assumes "0 < pw" "0 \<le> r"
  shows "splitInner r pw ds = Some (r mod pw, ds @ replicate (nat (r div pw)) pw)"
  using assms
proof (induction "nat r" arbitrary: r ds rule: less_induct)
  case less
  show ?case
  proof (cases "pw \<le> r")
    case True
    have step: "splitInner r pw ds = splitInner (r - pw) pw (ds @ [pw])"
      using True by (subst splitInner.simps) simp
    have "nat (r - pw) < nat r" "0 \<le> r - pw"
      using True less.prems by simp_all
    then have "splitInner (r - pw) pw (ds @ [pw]) =
        Some ((r - pw) mod pw, (ds @ [pw]) @ replicate (nat ((r - pw) div pw)) pw)"
      using less.hyps less.prems(1) by blast
    moreover have "(r - pw) mod pw = r mod pw" by simp
    moreover have "(ds @ [pw]) @ replicate (nat ((r - pw) div pw)) pw =
        ds @ replicate (Suc (nat ((r - pw) div pw))) pw"
      by simp
    ultimately show ?thesis
      using step div_minus_self[OF less.prems(1) True] by simp
  next
    case False
    then have "r div pw = 0" "r mod pw = r" using less.prems by auto
    then show ?thesis using False by (subst splitInner.simps) simp
  qed
qed

lemma splitOuter_greedy:
  assumes "0 \<le> r"
  shows "splitOuter r (2 ^ k) ds = Some (ds @ greedy k r)"
  using assms
proof (induction k arbitrary: r ds)
  case 0
  show ?case
  proof (cases "0 < r")
    case True
    have "splitOuter r 1 ds = splitOuter 0 0 (ds @ replicate (nat r) 1)"
      using True splitInner_eq[of 1 r ds] by (subst splitOuter.simps) simp
    also have "\<dots> = Some (ds @ replicate (nat r) 1)"
      by (subst splitOuter.simps) simp
    finally show ?thesis by simp
  next
    case False
    then show ?thesis using 0 by (subst splitOuter.simps) simp
  qed
next
  case (Suc k)
  show ?case
  proof (cases "0 < r")
    case True
    have p: "(0::int) < 2 ^ Suc k" by simp
    have h: "(2::int) ^ Suc k div 2 = 2 ^ k" by simp
    have "splitOuter r (2 ^ Suc k) ds =
          splitOuter (r mod 2 ^ Suc k) (2 ^ k) (ds @ replicate (nat (r div 2 ^ Suc k)) (2 ^ Suc k))"
      apply (subst splitOuter.simps)
      apply (subst splitInner_eq[OF p Suc.prems])
      using True h by (simp del: power_Suc)
    also have "\<dots> = Some ((ds @ replicate (nat (r div 2 ^ Suc k)) (2 ^ Suc k)) @ greedy k (r mod 2 ^ Suc k))"
      by (intro Suc.IH) simp
    finally show ?thesis by simp
  next
    case False
    then have "r = 0" using Suc.prems by simp
    then show ?thesis by (subst splitOuter.simps) simp
  qed
qed

lemma sum_list_greedy: "0 \<le> r \<Longrightarrow> sum_list (greedy k r) = r"
proof (induction k arbitrary: r)
  case 0
  then show ?case by (simp add: sum_list_replicate)
next
  case (Suc k)
  define X :: int where "X = 2 ^ Suc k"
  have "sum_list (greedy k (r mod X)) = r mod X"
    unfolding X_def by (intro Suc.IH) simp
  moreover have "int (nat (r div X)) = r div X"
    using Suc.prems by (simp add: pos_imp_zdiv_nonneg_iff X_def)
  moreover have "greedy (Suc k) r = replicate (nat (r div X)) X @ greedy k (r mod X)"
    by (simp add: X_def)
  ultimately have "sum_list (greedy (Suc k) r) = r div X * X + r mod X"
    by (simp add: sum_list_replicate)
  then show ?case by simp
qed

lemma set_greedy: "set (greedy k r) \<subseteq> (\<lambda>j. 2 ^ j) ` {..k}"
proof (induction k arbitrary: r)
  case 0
  then show ?case by auto
next
  case (Suc k)
  have "set (greedy k (r mod 2 ^ Suc k)) \<subseteq> (\<lambda>j. 2 ^ j) ` {..k}" by (rule Suc.IH)
  also have "\<dots> \<subseteq> (\<lambda>j. 2 ^ j) ` {..Suc k}" by auto
  finally show ?case by (auto simp del: power_Suc)
qed

lemma denomination_iff: "denomination d \<longleftrightarrow> (\<exists>j\<le>13. d = 2 ^ j)"
proof -
  have "set [0 ..< 14] = {..13::nat}" by auto
  then show ?thesis unfolding denomination_def by (auto simp: image_iff simp del: upt_Suc)
qed

lemma greedy_le: "d \<in> set (greedy k r) \<Longrightarrow> d \<le> 2 ^ k"
  using set_greedy[of k r] by (auto simp: power_increasing)

lemma sorted_greedy: "sorted (rev (greedy k r))"
proof (induction k arbitrary: r)
  case 0
  then show ?case by (simp add: sorted_replicate)
next
  case (Suc k)
  have "d \<le> 2 ^ Suc k" if "d \<in> set (greedy k (r mod 2 ^ Suc k))" for d
    using greedy_le[OF that] power_increasing[of k "Suc k" "2::int"] by linarith
  then have "\<forall>d \<in> set (greedy k (r mod 2 ^ Suc k)). d \<le> 2 ^ Suc k"
    by blast
  then show ?case using Suc.IH
    by (auto simp: sorted_append sorted_replicate simp del: power_Suc)
qed

lemma length_greedy_top:
  assumes "0 \<le> a" "0 \<le> c"
  shows "length (greedy k (a + c * 2 ^ k)) = length (greedy k a) + nat c"
proof (cases k)
  case 0
  then show ?thesis using assms by (simp add: nat_add_distrib)
next
  case (Suc n)
  have "(a + c * 2 ^ Suc n) div 2 ^ Suc n = a div 2 ^ Suc n + c" by simp
  moreover have "(a + c * 2 ^ Suc n) mod 2 ^ Suc n = a mod 2 ^ Suc n" by simp
  moreover have "0 \<le> a div 2 ^ Suc n" using assms by (simp add: pos_imp_zdiv_nonneg_iff)
  ultimately show ?thesis using Suc assms by (simp add: nat_add_distrib del: power_Suc)
qed

lemma length_greedy_Suc:
  assumes "0 \<le> a"
  shows "int (length (greedy (Suc k) a)) + a div 2 ^ Suc k = int (length (greedy k a))"
  using assms
proof (induction k arbitrary: a)
  case 0
  have "int (length (greedy (Suc 0) a)) = a div 2 + a mod 2"
    using 0 by (simp add: nat_add_distrib)
  moreover have "int (length (greedy 0 a)) = a" using 0 by simp
  moreover have "a div 2 * 2 + a mod 2 = a" by (rule div_mult_mod_eq)
  moreover have "a div 2 ^ Suc 0 = a div 2" by simp
  ultimately show ?case by linarith
next
  case (Suc k)
  define X :: int where "X = 2 ^ Suc k"
  define q where "q = a div (2 * X)"
  define m where "m = a mod (2 * X)"
  have X: "0 < X" by (simp add: X_def)
  have q: "0 \<le> q" using Suc.prems X by (simp add: q_def pos_imp_zdiv_nonneg_iff)
  have m: "0 \<le> m" using X by (simp add: m_def)
  have a: "a = m + q * (2 * X)"
    unfolding q_def m_def by (rule mod_div_mult_eq[symmetric])
  have unfold: "length (greedy (Suc (Suc k)) a) = nat q + length (greedy (Suc k) m)"
    by (simp add: q_def m_def X_def)
  have ih_m: "int (length (greedy (Suc k) m)) + m div X = int (length (greedy k m))"
    using Suc.IH[OF m] by (simp add: X_def)
  have ih_a: "int (length (greedy (Suc k) a)) + a div X = int (length (greedy k a))"
    using Suc.IH[OF Suc.prems] by (simp add: X_def)
  have "a = m + (4 * q) * 2 ^ k" by (subst a) (simp add: X_def)
  then have "length (greedy k a) = length (greedy k m) + nat (4 * q)"
    using length_greedy_top[OF m, of "4 * q" k] q by simp
  then have len: "int (length (greedy k a)) = int (length (greedy k m)) + 4 * q"
    using q by simp
  have "a div X = (m + (2 * q) * X) div X" by (subst a) (simp add: algebra_simps)
  also have "\<dots> = m div X + 2 * q" using X by simp
  finally have dv: "a div X = m div X + 2 * q" .
  have "int (length (greedy (Suc (Suc k)) a)) + a div 2 ^ Suc (Suc k)
      = int (nat q) + int (length (greedy (Suc k) m)) + q"
    using unfold by (simp add: q_def X_def)
  also have "\<dots> = 2 * q + int (length (greedy (Suc k) m))" using q by simp
  also have "\<dots> = int (length (greedy (Suc k) a))"
    using ih_m ih_a len dv by linarith
  finally show ?case .
qed

lemma length_greedy_add:
  assumes "0 \<le> a" "j \<le> k"
  shows "length (greedy k (a + 2 ^ j)) \<le> Suc (length (greedy k a))"
  using assms
proof (induction k arbitrary: a)
  case 0
  then show ?case by (simp add: nat_add_distrib)
next
  case (Suc k)
  show ?case
  proof (cases "j = Suc k")
    case True
    show ?thesis
      using length_greedy_top[OF Suc.prems(1), of 1 "Suc k"] True by simp
  next
    case False
    then have jk: "j \<le> k" using Suc.prems by simp
    have pos: "0 \<le> a + 2 ^ j" using Suc.prems by simp
    have ih: "length (greedy k (a + 2 ^ j)) \<le> Suc (length (greedy k a))"
      using Suc.IH[OF Suc.prems(1) jk] .
    have mono: "a div 2 ^ Suc k \<le> (a + 2 ^ j) div 2 ^ Suc k"
      by (intro zdiv_mono1) simp_all
    have "int (length (greedy (Suc k) (a + 2 ^ j))) + (a + 2 ^ j) div 2 ^ Suc k
        = int (length (greedy k (a + 2 ^ j)))"
      by (rule length_greedy_Suc[OF pos])
    moreover have "int (length (greedy (Suc k) a)) + a div 2 ^ Suc k = int (length (greedy k a))"
      by (rule length_greedy_Suc[OF Suc.prems(1)])
    ultimately have "int (length (greedy (Suc k) (a + 2 ^ j))) \<le> int (Suc (length (greedy (Suc k) a)))"
      using ih mono by linarith
    then show ?thesis by linarith
  qed
qed

lemma greedy_minimal:
  assumes "\<forall>e \<in> set es. \<exists>j\<le>k. e = 2 ^ j"
  shows "length (greedy k (sum_list es)) \<le> length es \<and> 0 \<le> sum_list es"
  using assms
proof (induction es)
  case Nil
  then show ?case by simp
next
  case (Cons e es)
  then obtain j where j: "j \<le> k" "e = 2 ^ j" by auto
  have ih: "length (greedy k (sum_list es)) \<le> length es" "0 \<le> sum_list es"
    using Cons by simp_all
  have "length (greedy k (sum_list es + 2 ^ j)) \<le> Suc (length (greedy k (sum_list es)))"
    by (rule length_greedy_add[OF ih(2) j(1)])
  then show ?case using ih j by (simp add: add.commute)
qed

lemma splitAmount_greedy: "0 \<le> a \<Longrightarrow> splitAmount a = Some (greedy 13 a)"
  using splitOuter_greedy[of a 13 "[]"] by (simp add: splitAmount_def)

text \<open>
  Claim C6. For every non-negative integer \<open>a\<close>, \<open>splitAmount a\<close> returns; the
  denominations returned sum to \<open>a\<close>; each is a power of two between 1 and 8192; they are
  the greedy decomposition from 8192 downward, in descending order; and no list of such
  denominations with the same sum is shorter.
\<close>

theorem splitAmount_sum_powers_greedy_minimal:
  assumes "0 \<le> a"
  shows "\<exists>ds. splitAmount a = Some ds \<and> sum_list ds = a \<and> list_all denomination ds
           \<and> ds = greedy 13 a \<and> sorted (rev ds)
           \<and> (\<forall>es. list_all denomination es \<and> sum_list es = a \<longrightarrow> length ds \<le> length es)"
proof -
  have powers: "list_all denomination (greedy 13 a)"
    using set_greedy[of 13 a] by (auto simp: list_all_iff denomination_iff)
  have minimal: "length (greedy 13 a) \<le> length es"
    if "list_all denomination es \<and> sum_list es = a" for es
  proof -
    have "\<forall>e \<in> set es. \<exists>j\<le>13. e = 2 ^ j"
      using that by (simp add: list_all_iff denomination_iff)
    from greedy_minimal[OF this] that show ?thesis by simp
  qed
  show ?thesis
    using splitAmount_greedy[OF assms] sum_list_greedy[OF assms, of 13] powers
      sorted_greedy[of 13 a] minimal
    by blast
qed

theorem splitAmount_sum_powers_greedy_minimal_witness:
  "(0::int) \<le> 100 \<and> splitAmount 100 = Some [64, 32, 4]
     \<and> sum_list [64, 32, 4] = (100::int) \<and> list_all denomination [64, 32, 4]
     \<and> list_all denomination [32, 32, 32, 4] \<and> sum_list [32, 32, 32, 4] = (100::int)
     \<and> length [64, 32, 4 :: int] \<le> length [32, 32, 32, 4 :: int]"
proof -
  have g: "greedy 13 100 = [64, 32, 4]" by code_simp
  have d: "list_all denomination [32, 32, 32, 4]" by code_simp
  show ?thesis
    using splitAmount_sum_powers_greedy_minimal[of 100] d unfolding g by auto
qed

section \<open>The ledger operations\<close>


lemma splitAmount_negative: "a < 0 \<Longrightarrow> splitAmount a = Some []"
  by (simp add: splitAmount_def splitOuter.simps)

lemma splitAmount_total: "splitAmount a = Some (if 0 \<le> a then greedy 13 a else [])"
  using splitAmount_greedy[of a] splitAmount_negative[of a] by simp

lemma sum_list_splitAmount:
  "splitAmount a = Some ds \<Longrightarrow> sum_list ds = (if 0 \<le> a then a else 0)"
  using sum_list_greedy[of a 13] by (simp add: splitAmount_total split: if_splits)



















lemma balance_removeProofs [simp]: "balance (removeProofs l rm) = balance l"
  by (simp add: removeProofs_def Let_def)













lemma proof_of_json_inverse: "proof_of_json (proof_json p) = Some p"
  by (cases "keyset_id p"; cases "secret p"; cases "C p")
     (simp_all add: proof_of_json_def proof_json_def opt_field_def)

lemma those_proofs_inverse: "those (map proof_of_json (map proof_json prfs)) = Some prfs"
  by (induction prfs) (simp_all add: proof_of_json_inverse)

lemma serializeToken_format:
  "serializeToken lib l prfs = ''cashuA'' @ toBase64 lib (stringify lib (token_json l prfs))"
  by (simp add: serializeToken_def token_json_def)

lemma deserialize_not_prefixed:
  "take 6 s \<noteq> ''cashuA'' \<Longrightarrow> deserializeToken lib s = Inl InvalidTokenFormat"
  by (simp add: deserializeToken_def)

lemma deserialize_undecodable:
  "parse lib (fromBase64 lib (drop 6 s)) = None \<Longrightarrow> isl (deserializeToken lib s)"
  by (simp add: deserializeToken_def)

lemma deserialize_lacks_token0:
  assumes "parse lib (fromBase64 lib (drop 6 s)) = Some parsed" "\<not> has_token0 parsed"
  shows "isl (deserializeToken lib s)"
proof (cases "take 6 s = ''cashuA''")
  case False
  then show ?thesis by (simp add: deserializeToken_def)
next
  case True
  show ?thesis
  proof (cases "get_prop (Some parsed) ''token''")
    case (Inl e)
    then show ?thesis using assms(1) True by (simp add: deserializeToken_def)
  next
    case (Inr tok)
    show ?thesis
    proof (cases "truthy tok")
      case False
      then show ?thesis using assms(1) True Inr by (simp add: deserializeToken_def)
    next
      case tt: True
      then obtain tv where tv: "tok = Some tv" by (cases tok) auto
      show ?thesis
      proof (cases "get_first tok")
        case (Inl e)
        then show ?thesis using assms(1) True Inr tt by (simp add: deserializeToken_def)
      next
        case r: (Inr t0)
        then have "t0 = None"
          using assms(2) Inr tv by (cases t0) (auto simp: has_token0_def)
        then show ?thesis using assms(1) True Inr tt r by (simp add: deserializeToken_def)
      qed
    qed
  qed
qed

lemma deserialize_serialize:
  assumes "fromBase64 lib (toBase64 lib (stringify lib (token_json l prfs))) = stringify lib (token_json l prfs)"
    and "parse lib (stringify lib (token_json l prfs)) = Some (token_json l prfs)"
  shows "deserializeToken lib (serializeToken lib l prfs)
           = Inr (Some (JStr (mintUrl l)), Some (JArr (map proof_json prfs)))"
  using assms
  by (simp add: deserializeToken_def serializeToken_format) (simp add: token_json_def)

text \<open>
  Claim C7. \<open>serializeToken\<close> produces \<open>cashuA\<close> followed by the base64 of the JSON text of
  \<open>{token: [{mint, proofs}]}\<close>; whenever the library's base64 and JSON functions invert each
  other on that text, \<open>deserializeToken\<close> gives back the mint URL and the same proofs;
  \<open>deserializeToken\<close> throws on a string without the prefix, on text that does not parse,
  and on a parsed value without \<open>token[0]\<close>.
\<close>

theorem token_roundtrip_format_rejection:
  "(fromBase64 lib (toBase64 lib (stringify lib (token_json l prfs))) = stringify lib (token_json l prfs)
      \<and> parse lib (stringify lib (token_json l prfs)) = Some (token_json l prfs) \<longrightarrow>
      deserializeToken lib (serializeToken lib l prfs)
         = Inr (Some (JStr (mintUrl l)), Some (JArr (map proof_json prfs)))
      \<and> those (map proof_of_json (map proof_json prfs)) = Some prfs)
   \<and> serializeToken lib l prfs = ''cashuA'' @ toBase64 lib (stringify lib (token_json l prfs))
   \<and> (take 6 s \<noteq> ''cashuA'' \<longrightarrow> deserializeToken lib s = Inl InvalidTokenFormat)
   \<and> (take 6 s = ''cashuA'' \<and> parse lib (fromBase64 lib (drop 6 s)) = None \<longrightarrow>
        deserializeToken lib s = Inl SyntaxError)
   \<and> (\<forall>parsed. parse lib (fromBase64 lib (drop 6 s)) = Some parsed \<and> \<not> has_token0 parsed \<longrightarrow>
        isl (deserializeToken lib s))"
  using deserialize_serialize[of lib l prfs] those_proofs_inverse[of prfs]
    serializeToken_format[of lib l prfs] deserialize_not_prefixed[of s lib]
    deserialize_lacks_token0[of lib s]
  by (auto simp: deserializeToken_def)

lemma std_lib_base64: "fromBase64 std_lib (toBase64 std_lib x) = x"
  by (simp add: std_lib_def std_base64_roundtrip)

lemma std_lib_json: "parse std_lib (stringify std_lib v) = Some v"
  by (simp add: std_lib_def std_parse_stringify)

lemma std_parse_empty_object: "std_parse [CHR ''{'', CHR ''}''] = Some (JObj [])"
  by (simp add: std_parse_def)

text \<open>
  Witness for C7 with the reference codec, whose base64 and JSON functions are proved to
  invert each other on every input.
\<close>

theorem token_roundtrip_format_rejection_witness:
  "deserializeToken std_lib (serializeToken std_lib demo_ledger [p64, p32])
     = Inr (Some (JStr ''http://localhost:3338''), Some (JArr [proof_json p64, proof_json p32]))
   \<and> those (map proof_of_json [proof_json p64, proof_json p32]) = Some [p64, p32]
   \<and> deserializeToken std_lib ''cashuB'' = Inl InvalidTokenFormat
   \<and> deserializeToken std_lib ''cashuA!'' = Inl SyntaxError
   \<and> isl (deserializeToken std_lib (''cashuA'' @ toBase64 std_lib [CHR ''{'', CHR ''}'']))"
proof -
  have a: "deserializeToken std_lib (serializeToken std_lib demo_ledger [p64, p32])
     = Inr (Some (JStr ''http://localhost:3338''), Some (JArr [proof_json p64, proof_json p32]))
   \<and> those (map proof_of_json [proof_json p64, proof_json p32]) = Some [p64, p32]"
  proof -
    have "deserializeToken std_lib (serializeToken std_lib demo_ledger [p64, p32])
         = Inr (Some (JStr (mintUrl demo_ledger)), Some (JArr (map proof_json [p64, p32])))
      \<and> those (map proof_of_json (map proof_json [p64, p32])) = Some [p64, p32]"
      using token_roundtrip_format_rejection[of std_lib demo_ledger "[p64, p32]" "''''"]
        std_lib_base64 std_lib_json
      by blast
    moreover have "mintUrl demo_ledger = ''http://localhost:3338''"
      by (simp add: demo_ledger_def)
    ultimately show ?thesis by simp
  qed
  have b: "deserializeToken std_lib ''cashuB'' = Inl InvalidTokenFormat"
    using token_roundtrip_format_rejection[of std_lib demo_ledger "[]" "''cashuB''"] by simp
  have "std_parse (std_fromBase64 ''!'') = None"
    by (simp add: std_fromBase64_def b64val_def List.map_filter_simps std_parse_def)
  then have c: "deserializeToken std_lib ''cashuA!'' = Inl SyntaxError"
    using token_roundtrip_format_rejection[of std_lib demo_ledger "[]" "''cashuA!''"]
    by (simp add: std_lib_def)
  have "parse std_lib (fromBase64 std_lib (toBase64 std_lib [CHR ''{'', CHR ''}''])) = Some (JObj [])"
    unfolding std_lib_base64 by (simp add: std_lib_def std_parse_empty_object)
  moreover have "\<not> has_token0 (JObj [])" by (simp add: has_token0_def)
  ultimately have d: "isl (deserializeToken std_lib (''cashuA'' @ toBase64 std_lib [CHR ''{'', CHR ''}'']))"
    using token_roundtrip_format_rejection[of std_lib demo_ledger "[]"
        "''cashuA'' @ toBase64 std_lib [CHR ''{'', CHR ''}'']"]
    by simp
  show ?thesis using a b c d by blast
qed






section \<open>Macaroon integrity\<close>






















section \<open>The gateway\<close>


lemma js_split_char_first:
  "c \<notin> set m \<Longrightarrow> js_split [c] cur (m @ c # p) = (rev cur @ m) # js_split [c] [] p"
  by (induction m arbitrary: cur) auto

lemma split_header:
  assumes "CHR '':'' \<notin> set m"
  shows "split (drop 5 (''L402 '' @ m @ '':'' @ p)) '':'' = m # split p '':''"
  using js_split_char_first[OF assms, of "[]" p] by (simp add: split_def)

lemma split_nonempty: "split s sep \<noteq> []"
proof -
  have "js_split sep cur s \<noteq> []" for cur
    by (induction sep cur s rule: js_split.induct) auto
  then show ?thesis by (simp add: split_def)
qed



text \<open>
  Claim C10. Two headers with the same preimage whose macaroons decode to JSON values with
  the same \<open>identifier\<close> get the same answer and the same gateway state from \<open>validateL402\<close>,
  whatever their \<open>signature\<close>, \<open>caveats\<close> and \<open>location\<close> are: the function reads no other
  field of the macaroon and never calls the HMAC.
\<close>

theorem validateL402_ignores_signature:
  assumes "CHR '':'' \<notin> set m1" "CHR '':'' \<notin> set m2" "m1 \<noteq> []" "m2 \<noteq> []"
    and "decode_json lib (Some (JStr m1)) = Inr mac1"
    and "decode_json lib (Some (JStr m2)) = Inr mac2"
    and "get_prop (Some mac1) ''identifier'' = get_prop (Some mac2) ''identifier''"
  shows "validateL402 lib sha gw now (credential m1 p) = validateL402 lib sha gw now (credential m2 p)"
proof -
  have ph: "macaroon_paymentHash lib m1 = macaroon_paymentHash lib m2"
    using assms(5-7) by (simp add: macaroon_paymentHash_def)
  have s1: "split (drop 5 (credential m1 p)) '':'' = m1 # split p '':''"
    unfolding credential_def by (rule split_header[OF assms(1)])
  have s2: "split (drop 5 (credential m2 p)) '':'' = m2 # split p '':''"
    unfolding credential_def by (rule split_header[OF assms(2)])
  show ?thesis
    unfolding validateL402_def s1 s2 Let_def using assms(3,4) ph
    by (cases "split p '':''") simp_all
qed

lemma b64char_not_colon: "b64char i \<noteq> CHR '':''"
proof
  assume "b64char i = CHR '':''"
  then have "(of_char (b64char i) :: nat) = 58" by simp
  then show False by (auto simp: b64char_def split: if_splits)
qed

lemma b64enc_no_colon: "CHR '':'' \<notin> set (b64enc bs)"
  by (induction bs rule: b64enc.induct)
     (auto simp: b64char_not_colon b64char_not_colon[symmetric])

lemma b64enc_nonempty: "bs \<noteq> [] \<Longrightarrow> b64enc bs \<noteq> []"
  by (induction bs rule: b64enc.induct) auto

lemma std_toBase64_shape: "CHR '':'' \<notin> set (toBase64 std_lib s)" "s \<noteq> [] \<Longrightarrow> toBase64 std_lib s \<noteq> []"
  using b64enc_no_colon b64enc_nonempty[of "map of_char s"]
  by (simp_all add: std_lib_def std_toBase64_def)

lemma std_stringify_nonempty: "stringify std_lib v \<noteq> []"
  using stringify_start[of v] by (auto simp: std_lib_def)

lemma decode_encoded: "decode_json std_lib (Some (JStr (toBase64 std_lib (stringify std_lib v)))) = Inr v"
  by (simp add: decode_json_def std_lib_base64 std_lib_json)

lemma demo_macaroon_shape:
  "CHR '':'' \<notin> set (demo_macaroon loc cavs sg)" "demo_macaroon loc cavs sg \<noteq> []"
  unfolding demo_macaroon_def
  using std_toBase64_shape std_stringify_nonempty by blast+

lemma demo_macaroon_identifier:
  "\<exists>mac. decode_json std_lib (Some (JStr (demo_macaroon loc cavs sg))) = Inr mac
     \<and> get_prop (Some mac) ''identifier'' = Inr (Some (JStr demo_identifier))"
  unfolding demo_macaroon_def decode_encoded by simp





text \<open>
  Two different macaroons over the sample identifier, with different locations, caveats and
  signatures, are answered alike.
\<close>

theorem validateL402_ignores_signature_witness:
  "validateL402 std_lib demo_sha demo_gateway 1000
       (credential (demo_macaroon ''lightning-hub'' [''provider = grok''] ''aa'') ''cafe'')
   = validateL402 std_lib demo_sha demo_gateway 1000
       (credential (demo_macaroon ''elsewhere'' [''provider = claude'', ''max_tokens = 9''] ''ff'') ''cafe'')
   \<and> demo_macaroon ''lightning-hub'' [''provider = grok''] ''aa''
       \<noteq> demo_macaroon ''elsewhere'' [''provider = claude'', ''max_tokens = 9''] ''ff''"
proof -
  let ?m1 = "demo_macaroon ''lightning-hub'' [''provider = grok''] ''aa''"
  let ?m2 = "demo_macaroon ''elsewhere'' [''provider = claude'', ''max_tokens = 9''] ''ff''"
  obtain mac1 where m1: "decode_json std_lib (Some (JStr ?m1)) = Inr mac1"
    "get_prop (Some mac1) ''identifier'' = Inr (Some (JStr demo_identifier))"
    using demo_macaroon_identifier by blast
  obtain mac2 where m2: "decode_json std_lib (Some (JStr ?m2)) = Inr mac2"
    "get_prop (Some mac2) ''identifier'' = Inr (Some (JStr demo_identifier))"
    using demo_macaroon_identifier by blast
  have eq: "validateL402 std_lib demo_sha demo_gateway 1000 (credential ?m1 ''cafe'')
      = validateL402 std_lib demo_sha demo_gateway 1000 (credential ?m2 ''cafe'')"
    by (rule validateL402_ignores_signature[OF demo_macaroon_shape(1) demo_macaroon_shape(1)
          demo_macaroon_shape(2) demo_macaroon_shape(2) m1(1) m2(1)])
       (simp add: m1(2) m2(2))
  have "?m1 \<noteq> ?m2"
  proof
    assume "?m1 = ?m2"
    then have "decode_json std_lib (Some (JStr ?m1)) = decode_json std_lib (Some (JStr ?m2))" by simp
    then show False unfolding demo_macaroon_def decode_encoded by simp
  qed
  then show ?thesis using eq by blast
qed

lemma challenge_amount_formula:
  "minPayment t = Some mp \<Longrightarrow> pricePerToken t = Some ppt \<Longrightarrow>
     challenge_amount t estimatedTokens = Num (max mp (estimatedTokens * ppt))"
  by (simp add: challenge_amount_def)

lemma challenge_amount_no_minimum:
  "minPayment t = None \<Longrightarrow> challenge_amount t estimatedTokens = NaN"
  by (simp add: challenge_amount_def)

lemma createChallenge_amount:
  assumes "pricingTiers gw prov = Some t"
  shows "\<exists>ch gw'. createChallenge lib hmac gw now lnd prov estimatedTokens = Inr (ch, gw')
           \<and> ch_amountSats ch = challenge_amount t estimatedTokens
           \<and> (\<exists>s. sessions gw' (r_hash (lnd (challenge_amount t estimatedTokens))) = Some s
                  \<and> amountSats s = challenge_amount t estimatedTokens \<and> \<not> paid s \<and> \<not> used s)"
  using assms by (simp add: createChallenge_def lookup_tier_def js_property_def Let_def)

lemma middleware_chat_request:
  assumes "pricingTiers gw prov = Some t" "prov \<noteq> []"
  shows "\<exists>ch gw'. middleware lib hmac sha gw now lnd (chat_request prov) = (PaymentRequired ch, gw')
           \<and> ch_amountSats ch = challenge_amount t 1000"
proof -
  obtain ch gw' where c: "createChallenge lib hmac gw now lnd prov 1000 = Inr (ch, gw')"
    "ch_amountSats ch = challenge_amount t 1000"
    using createChallenge_amount[OF assms(1)] by blast
  then show ?thesis
    using assms(2) by (simp add: middleware_def chat_request_def or_else_def)
qed

lemma default_wiring_amount:
  "\<exists>ch gw'. middleware lib hmac sha (new_gateway key None) now lnd (chat_request ''oobabooga'')
       = (PaymentRequired ch, gw') \<and> ch_amountSats ch = Num 1000"
proof -
  have "pricingTiers (new_gateway key None) ''oobabooga''
      = Some \<lparr> pricePerToken = Some 1, tier_name = Some ''Oobabooga (Local)'', minPayment = Some 10 \<rparr>"
    by (simp add: new_gateway_def default_tiers_def)
  from middleware_chat_request[OF this, of lib hmac sha now lnd] show ?thesis
    by (simp add: challenge_amount_def)
qed

text \<open>
  Claim C5 at the server's own wiring: the tiers passed by server.js carry no \<open>minPayment\<close>,
  so \<open>Math.max(undefined, 1000)\<close> is \<open>NaN\<close> and the 402 response of an unauthenticated
  chat request carries no amount.
\<close>

theorem server_wiring_amount_is_NaN:
  "\<exists>ch gw'. middleware lib hmac sha (new_gateway key (Some server_tiers)) now lnd (chat_request ''oobabooga'')
       = (PaymentRequired ch, gw') \<and> ch_amountSats ch = NaN"
proof -
  have "pricingTiers (new_gateway key (Some server_tiers)) ''oobabooga''
      = Some \<lparr> pricePerToken = Some 1, tier_name = Some ''Oobabooga (Local)'', minPayment = None \<rparr>"
    by (simp add: new_gateway_def server_tiers_def)
  from middleware_chat_request[OF this, of lib hmac sha now lnd] show ?thesis
    by (simp add: challenge_amount_def)
qed






section \<open>Token counting\<close>

lemma utf8Length_ascii: "\<forall>u \<in> set str. u < 0x80 \<Longrightarrow> utf8Length str = length str"
proof (induction str rule: utf8Length.induct)
  case 1
  then show ?case by simp
next
  case (2 u)
  then show ?case by (simp add: unit_length_def)
next
  case (3 u v rest)
  have "\<not> high_surrogate u"
    using 3(3) by (auto simp: high_surrogate_def word_less_nat_alt word_le_nat_alt)
  then show ?case using 3 by (simp add: unit_length_def)
qed

text \<open>
  Claim C9. \<open>countTokens\<close> is the ceiling of a quarter of \<open>text.length\<close>, the number of UTF-16
  code units of the text, and so is the router's \<open>countTokens\<close> for every provider name that is
  not the name of a member of \<open>Object.prototype\<close>, whether the provider is configured or not.
  This equals the ceiling of a quarter of the UTF-8 length when every code unit is below 128,
  and not in general.
\<close>

theorem countTokens_by_code_units:
  "countTokens str = \<lceil>real (length str) / 4\<rceil>
   \<and> (js_property providers providerName \<noteq> Inherited \<longrightarrow>
        router_countTokens providers providerName str = Inr (\<lceil>real (length str) / 4\<rceil>))
   \<and> ((\<forall>u \<in> set str. u < 0x80) \<longrightarrow> countTokens str = \<lceil>real (utf8Length str) / 4\<rceil>)"
  using utf8Length_ascii[of str]
  by (cases "js_property providers providerName")
     (auto simp: countTokens_def router_countTokens_def)

text \<open>The text \<open>hello\<close>, counted by the provider \<open>claude\<close> of a router that has it: two tokens.\<close>

theorem countTokens_by_code_units_witness:
  "countTokens [0x68, 0x65, 0x6C, 0x6C, 0x6F] = 2
   \<and> router_countTokens [''claude'' \<mapsto> ()] ''claude'' [0x68, 0x65, 0x6C, 0x6C, 0x6F] = Inr 2
   \<and> countTokens [0x68, 0x65, 0x6C, 0x6C, 0x6F] = \<lceil>real (utf8Length [0x68, 0x65, 0x6C, 0x6C, 0x6F]) / 4\<rceil>"
proof -
  have a: "\<forall>u \<in> set [0x68, 0x65, 0x6C, 0x6C, 0x6F :: 16 word]. u < 0x80" by simp
  have b: "\<lceil>real (length [0x68, 0x65, 0x6C, 0x6C, 0x6F :: 16 word]) / 4\<rceil> = 2" by simp
  have c: "js_property [''claude'' \<mapsto> ()] ''claude'' \<noteq> Inherited"
    by (simp add: js_property_def)
  show ?thesis
    using countTokens_by_code_units[of "[0x68, 0x65, 0x6C, 0x6C, 0x6F]" "[''claude'' \<mapsto> ()]" "''claude''"] a b c
    by auto
qed

text \<open>
  Five times the letter e with an acute accent (U+00E9): five code units, ten bytes of UTF-8.
  The code counts two tokens, a quarter of the UTF-8 length rounds up to three.
\<close>

theorem countTokens_utf8_counterexample:
  "countTokens [0xE9, 0xE9, 0xE9, 0xE9, 0xE9] = 2
   \<and> \<lceil>real (utf8Length [0xE9, 0xE9, 0xE9, 0xE9, 0xE9]) / 4\<rceil> = 3"
  by (simp add: countTokens_def unit_length_def high_surrogate_def)

end
